theory Spec2Isabelle
  imports Main "HOL-Library.Word"
begin

section \<open>A mock git server (porch/repository/pkg/git/testing.go)\<close>

text \<open>
  The development embeds the packet-line writer, the object walker, the reference
  advertisement and the receive-pack handler of \<^verbatim>\<open>testing.go\<close>. Library code the file
  calls (bufio.Writer, the go-git object store, the pktline scanner, the packfile decoder) is
  either a parameter of the embedding or a small executable model, as said at each place.
\<close>

subsection \<open>Basic types and errors\<close>

type_synonym byte = "8 word"

text \<open>\<^verbatim>\<open>plumbing.Hash\<close> is \<^verbatim>\<open>[20]byte\<close>; \<^verbatim>\<open>parseHash\<close> only returns lists of length 20.\<close>

type_synonym Hash = "byte list"

text \<open>Every \<^verbatim>\<open>error\<close> value the embedded functions build or pass on.\<close>

datatype error =
    IOError string
  | UnknownServiceName string
  | UnexpectedReference string
  | GzipFailed
  | UnknownContentEncoding string
  | ReadRequestLineError
  | ReadRequestLineEOF
  | UnexpectedLineSpaces string
  | UnexpectedLineNulls string
  | UnexpectedLineHash1 string
  | UnexpectedLineHash2 string
  | ErrLength
  | InvalidByteError
  | NotHex string
  | WrongLength string
  | GetObjectFailed Hash
  | FramingError
  | ObjectNotFound
  | ReferenceNotFound string
  | ErrMaxResolveRecursion
  | UnknownObject Hash
  | PackfileError
  | SetReferenceFailed string

subsection \<open>PacketLineWriter\<close>

text \<open>
  \<^verbatim>\<open>bufio.Writer\<close> is library code: its two methods are parameters. A method takes the
  writer's state and returns the new state with the error (\<open>None\<close> is Go's \<^verbatim>\<open>nil\<close>).
\<close>

record 'b bufio_Writer =
  bufio_Write :: "'b \<Rightarrow> string \<Rightarrow> 'b \<times> error option"
  bufio_Flush :: "'b \<Rightarrow> 'b \<times> error option"

record 'b PacketLineWriter =
  err :: "error option"
  w :: "'b"

definition NewPacketLineWriter :: "'b \<Rightarrow> 'b PacketLineWriter" where
  "NewPacketLineWriter b = \<lparr>err = None, w = b\<rparr>"

text \<open>\<^verbatim>\<open>fmt.Sprintf("%04x", n)\<close>: lower-case hexadecimal, padded with zeros to at least four digits.\<close>

definition hexDigit :: "nat \<Rightarrow> char" where
  "hexDigit d = (''0123456789abcdef'') ! d"

fun hexDigits :: "nat \<Rightarrow> string" where
  "hexDigits n = (if n < 16 then [hexDigit n] else hexDigits (n div 16) @ [hexDigit (n mod 16)])"

declare hexDigits.simps [simp del]

definition Sprintf_04x :: "nat \<Rightarrow> string" where
  "Sprintf_04x n = replicate (4 - length (hexDigits n)) (CHR ''0'') @ hexDigits n"

definition Flush :: "'b bufio_Writer \<Rightarrow> 'b PacketLineWriter \<Rightarrow> 'b PacketLineWriter \<times> error option" where
  "Flush io pw =
     (if err pw \<noteq> None then (pw, err pw)
      else case bufio_Flush io (w pw) of (b, r) \<Rightarrow> (pw\<lparr>w := b\<rparr>, r))"

definition WriteLine :: "'b bufio_Writer \<Rightarrow> 'b PacketLineWriter \<Rightarrow> string \<Rightarrow> 'b PacketLineWriter" where
  "WriteLine io pw s =
     (if err pw \<noteq> None then pw
      else
        let n = 4 + length s + 1;
            prefix = Sprintf_04x n
        in case bufio_Write io (w pw) prefix of
             (b1, Some e) \<Rightarrow> pw\<lparr>err := Some e, w := b1\<rparr>
           | (b1, None) \<Rightarrow>
               (case bufio_Write io b1 s of
                  (b2, Some e) \<Rightarrow> pw\<lparr>err := Some e, w := b2\<rparr>
                | (b2, None) \<Rightarrow>
                    (case bufio_Write io b2 [CHR 0x0A] of
                       (b3, Some e) \<Rightarrow> pw\<lparr>err := Some e, w := b3\<rparr>
                     | (b3, None) \<Rightarrow> pw\<lparr>w := b3\<rparr>)))"

definition WriteZeroPacketLine :: "'b bufio_Writer \<Rightarrow> 'b PacketLineWriter \<Rightarrow> 'b PacketLineWriter" where
  "WriteZeroPacketLine io pw =
     (if err pw \<noteq> None then pw
      else case bufio_Write io (w pw) ''0000'' of
             (b1, Some e) \<Rightarrow> pw\<lparr>err := Some e, w := b1\<rparr>
           | (b1, None) \<Rightarrow> pw\<lparr>w := b1\<rparr>)"

text \<open>A caller's sequence of write calls on one writer, in order.\<close>

datatype write_call = CallWriteLine string | CallWriteZeroPacketLine

fun write_calls :: "'b bufio_Writer \<Rightarrow> 'b PacketLineWriter \<Rightarrow> write_call list \<Rightarrow> 'b PacketLineWriter" where
  "write_calls io pw [] = pw"
| "write_calls io pw (CallWriteLine s # cs) = write_calls io (WriteLine io pw s) cs"
| "write_calls io pw (CallWriteZeroPacketLine # cs) = write_calls io (WriteZeroPacketLine io pw) cs"

text \<open>
  Two concrete writers for evaluation. \<open>memWriter\<close> keeps every byte and never fails;
  \<open>limitWriter c\<close> accepts \<open>c\<close> bytes in all and fails every write that would exceed them
  (a connection that breaks), and its flush fails once a write has been refused.
\<close>

definition memWriter :: "string bufio_Writer" where
  "memWriter = \<lparr>bufio_Write = (\<lambda>b p. (b @ p, None)), bufio_Flush = (\<lambda>b. (b, None))\<rparr>"

definition limitWriter :: "nat \<Rightarrow> (string \<times> bool) bufio_Writer" where
  "limitWriter c =
     \<lparr>bufio_Write = (\<lambda>(b, broken) p.
         if \<not> broken \<and> length b + length p \<le> c then ((b @ p, False), None)
         else ((b, True), Some (IOError ''short write''))),
      bufio_Flush = (\<lambda>(b, broken).
         if broken then ((b, True), Some (IOError ''short write'')) else ((b, False), None))\<rparr>"

subsection \<open>The packet-line writer defers its errors\<close>

lemma WriteLine_err_noop: "err pw = Some e \<Longrightarrow> WriteLine io pw s = pw"
  by (simp add: WriteLine_def)

lemma WriteZeroPacketLine_err_noop: "err pw = Some e \<Longrightarrow> WriteZeroPacketLine io pw = pw"
  by (simp add: WriteZeroPacketLine_def)

lemma write_calls_err_noop: "err pw = Some e \<Longrightarrow> write_calls io pw cs = pw"
proof (induction cs)
  case Nil
  show ?case by simp
next
  case (Cons c cs)
  then show ?case
    by (cases c) (simp_all add: WriteLine_err_noop WriteZeroPacketLine_err_noop)
qed

lemma Flush_err: "err pw = Some e \<Longrightarrow> Flush io pw = (pw, Some e)"
  by (simp add: Flush_def)

lemma Flush_no_err:
  "err pw = None \<Longrightarrow>
     Flush io pw = (pw\<lparr>w := fst (bufio_Flush io (w pw))\<rparr>, snd (bufio_Flush io (w pw)))"
  by (simp add: Flush_def split: prod.splits)

lemma WriteLine_first_error:
  "err pw = None \<Longrightarrow>
   err (WriteLine io pw s) =
     (case bufio_Write io (w pw) (Sprintf_04x (4 + length s + 1)) of
        (b1, Some e) \<Rightarrow> Some e
      | (b1, None) \<Rightarrow>
          (case bufio_Write io b1 s of
             (b2, Some e) \<Rightarrow> Some e
           | (b2, None) \<Rightarrow> snd (bufio_Write io b2 [CHR 0x0A])))"
  by (simp add: WriteLine_def Let_def split: prod.splits option.splits)

lemma WriteZeroPacketLine_first_error:
  "err pw = None \<Longrightarrow> err (WriteZeroPacketLine io pw) = snd (bufio_Write io (w pw) ''0000'')"
  by (simp add: WriteZeroPacketLine_def split: prod.splits option.splits)

text \<open>
  Claim C5. \<^verbatim>\<open>WriteLine\<close> and \<^verbatim>\<open>WriteZeroPacketLine\<close> return no error (their result is
  the writer alone). While no error is recorded, the error field after a call is the error of
  the first write of that call that failed, and \<^verbatim>\<open>Flush\<close> flushes the buffer and returns
  the buffer's result. Once an error \<open>e\<close> is recorded, every later \<^verbatim>\<open>WriteLine\<close> and
  \<^verbatim>\<open>WriteZeroPacketLine\<close> (and any sequence of them) leaves the writer as it is, and
  \<^verbatim>\<open>Flush\<close> returns \<open>e\<close>.
\<close>

theorem PacketLineWriter_defers_errors:
  "(err pw = Some e \<longrightarrow>
      WriteLine io pw s = pw \<and> WriteZeroPacketLine io pw = pw \<and>
      write_calls io pw cs = pw \<and>
      Flush io (write_calls io pw cs) = (pw, Some e))
   \<and> (err pw = None \<longrightarrow>
      err (WriteLine io pw s) =
        (case bufio_Write io (w pw) (Sprintf_04x (4 + length s + 1)) of
           (b1, Some e1) \<Rightarrow> Some e1
         | (b1, None) \<Rightarrow>
             (case bufio_Write io b1 s of
                (b2, Some e2) \<Rightarrow> Some e2
              | (b2, None) \<Rightarrow> snd (bufio_Write io b2 [CHR 0x0A]))) \<and>
      err (WriteZeroPacketLine io pw) = snd (bufio_Write io (w pw) ''0000'') \<and>
      Flush io pw = (pw\<lparr>w := fst (bufio_Flush io (w pw))\<rparr>, snd (bufio_Flush io (w pw))))"
proof (intro conjI impI)
  assume e: "err pw = Some e"
  show "WriteLine io pw s = pw" using e by (rule WriteLine_err_noop)
  show "WriteZeroPacketLine io pw = pw" using e by (rule WriteZeroPacketLine_err_noop)
  show c: "write_calls io pw cs = pw" using e by (rule write_calls_err_noop)
  show "Flush io (write_calls io pw cs) = (pw, Some e)"
    using e by (simp add: c Flush_err)
next
  assume n: "err pw = None"
  show "err (WriteLine io pw s) =
        (case bufio_Write io (w pw) (Sprintf_04x (4 + length s + 1)) of
           (b1, Some e1) \<Rightarrow> Some e1
         | (b1, None) \<Rightarrow>
             (case bufio_Write io b1 s of
                (b2, Some e2) \<Rightarrow> Some e2
              | (b2, None) \<Rightarrow> snd (bufio_Write io b2 [CHR 0x0A])))"
    using n by (rule WriteLine_first_error)
  show "err (WriteZeroPacketLine io pw) = snd (bufio_Write io (w pw) ''0000'')"
    using n by (rule WriteZeroPacketLine_first_error)
  show "Flush io pw = (pw\<lparr>w := fst (bufio_Flush io (w pw))\<rparr>, snd (bufio_Flush io (w pw)))"
    using n by (rule Flush_no_err)
qed

text \<open>
  The writer \<open>limitWriter 10\<close> takes the 8 bytes of the line \<open>NAK\<close> and refuses the
  prefix of the next line: that error is recorded, the writes after it change nothing, and
  \<^verbatim>\<open>Flush\<close> returns it. On a fresh writer \<^verbatim>\<open>Flush\<close> returns the buffer's result.
\<close>

theorem PacketLineWriter_defers_errors_witness:
  "err (write_calls (limitWriter 10) (NewPacketLineWriter ([], False))
          [CallWriteLine ''NAK'', CallWriteLine ''abc'']) = Some (IOError ''short write'')
   \<and> w (write_calls (limitWriter 10) (NewPacketLineWriter ([], False))
          [CallWriteLine ''NAK'', CallWriteLine ''abc'']) = (''0008NAK'' @ [CHR 0x0A], True)
   \<and> Flush (limitWriter 10)
        (write_calls (limitWriter 10)
          (write_calls (limitWriter 10) (NewPacketLineWriter ([], False))
             [CallWriteLine ''NAK'', CallWriteLine ''abc''])
          [CallWriteZeroPacketLine, CallWriteLine ''x''])
      = (write_calls (limitWriter 10) (NewPacketLineWriter ([], False))
           [CallWriteLine ''NAK'', CallWriteLine ''abc''], Some (IOError ''short write''))
   \<and> err (NewPacketLineWriter ([], False) :: (string \<times> bool) PacketLineWriter) = None
   \<and> Flush (limitWriter 10) (NewPacketLineWriter ([], False))
      = (NewPacketLineWriter ([], False), None)"
proof -
  let ?pw = "write_calls (limitWriter 10) (NewPacketLineWriter ([], False))
               [CallWriteLine ''NAK'', CallWriteLine ''abc'']"
  have h8: "Sprintf_04x 8 = ''0008''"
    by code_simp
  have pw: "?pw = \<lparr>err = Some (IOError ''short write''), w = (''0008NAK'' @ [CHR 0x0A], True)\<rparr>"
    by (simp add: WriteLine_def NewPacketLineWriter_def limitWriter_def h8 Let_def)
  have e: "err ?pw = Some (IOError ''short write'')" unfolding pw by simp
  have c: "w ?pw = (''0008NAK'' @ [CHR 0x0A], True)" unfolding pw by simp
  have n: "err (NewPacketLineWriter ([], False) :: (string \<times> bool) PacketLineWriter) = None"
    by (simp add: NewPacketLineWriter_def)
  from PacketLineWriter_defers_errors
         [of ?pw "IOError ''short write''" "limitWriter 10" "''x''"
             "[CallWriteZeroPacketLine, CallWriteLine ''x'']"] e
  have a: "Flush (limitWriter 10)
             (write_calls (limitWriter 10) ?pw [CallWriteZeroPacketLine, CallWriteLine ''x''])
           = (?pw, Some (IOError ''short write''))"
    by blast
  from PacketLineWriter_defers_errors
         [of "NewPacketLineWriter ([], False)" undefined "limitWriter 10" "''x''" "[]"] n
  have b: "Flush (limitWriter 10) (NewPacketLineWriter ([], False))
           = (NewPacketLineWriter ([], False), None)"
    by (simp add: NewPacketLineWriter_def limitWriter_def)
  show ?thesis by (intro conjI) (fact e, fact c, fact a, fact n, fact b)
qed

subsection \<open>The object store\<close>

text \<open>
  \<^verbatim>\<open>filemode.FileMode\<close> is a 32-bit number in go-git. The walker tells five values apart;
  \<open>OtherMode\<close> stands for every other value (empty, deprecated or malformed modes).
\<close>

datatype FileMode = Dir | Regular | Executable | Symlink | Submodule | OtherMode nat

record TreeEntry =
  Name :: string
  Mode :: FileMode
  Hash :: Hash

text \<open>The four kinds of object that \<^verbatim>\<open>object.GetObject\<close> decodes, with the fields the walker reads.\<close>

datatype Object =
    Commit (TreeHash: Hash) (ParentHashes: "Hash list")
  | Tree (Entries: "TreeEntry list")
  | Tag (Target: Hash)
  | Blob

datatype ReferenceType = InvalidReference | HashReference | SymbolicReference

text \<open>
  \<^verbatim>\<open>plumbing.Reference\<close>: the fields are named after the accessor methods
  \<^verbatim>\<open>Type()\<close>, \<^verbatim>\<open>Name()\<close>, \<^verbatim>\<open>Hash()\<close> and \<^verbatim>\<open>Target()\<close>.
\<close>

record Reference =
  RefType :: ReferenceType
  RefName :: string
  RefHash :: Hash
  RefTarget :: string

text \<open>
  The store (\<^verbatim>\<open>storage.Storer\<close>) is library code. Its model holds the objects by hash and
  the references in the order in which the store iterates over them.
\<close>

record Storer =
  objects :: "(Hash \<times> Object) list"
  references :: "Reference list"

definition object_GetObject :: "Storer \<Rightarrow> Hash \<Rightarrow> error + Object" where
  "object_GetObject s hash =
     (case map_of (objects s) hash of
        None \<Rightarrow> Inl ObjectNotFound
      | Some obj \<Rightarrow> Inr obj)"

definition IterReferences :: "Storer \<Rightarrow> error + Reference list" where
  "IterReferences s = Inr (references s)"

subsection \<open>objectWalker\<close>

text \<open>
  The struct has the fields \<open>Storer\<close> and \<open>seen\<close>. The field \<open>fetched\<close> is not in the
  source: it is the trace of the hashes passed to \<^verbatim>\<open>object.GetObject\<close>, in call order, so
  that statements about how often an object is fetched can be made.
\<close>

record objectWalker =
  Storer :: Storer
  seen :: "Hash set"
  fetched :: "Hash list"

definition newObjectWalker :: "Storer \<Rightarrow> objectWalker" where
  "newObjectWalker s = \<lparr>Storer = s, seen = {}, fetched = []\<rparr>"

definition isSeen :: "objectWalker \<Rightarrow> Hash \<Rightarrow> bool" where
  "isSeen p hash = (hash \<in> seen p)"

definition add :: "objectWalker \<Rightarrow> Hash \<Rightarrow> objectWalker" where
  "add p hash = p\<lparr>seen := insert hash (seen p)\<rparr>"

text \<open>The walker is about to call \<^verbatim>\<open>object.GetObject(p.Storer, hash)\<close>.\<close>

definition fetch :: "objectWalker \<Rightarrow> Hash \<Rightarrow> objectWalker" where
  "fetch p hash = p\<lparr>fetched := fetched p @ [hash]\<rparr>"

text \<open>
  \<^verbatim>\<open>walkObjectTree\<close> with its two loops: \<open>walkParentHashes\<close> is the loop over
  \<^verbatim>\<open>obj.ParentHashes\<close>, \<open>walkEntries\<close> the loop over \<^verbatim>\<open>obj.Entries\<close>. The walker is
  mutated in place, so each function returns it with the error (\<open>None\<close> is \<^verbatim>\<open>nil\<close>).
\<close>

function walkObjectTree :: "objectWalker \<Rightarrow> Hash \<Rightarrow> objectWalker \<times> error option"
  and walkParentHashes :: "objectWalker \<Rightarrow> Hash list \<Rightarrow> objectWalker \<times> error option"
  and walkEntries :: "objectWalker \<Rightarrow> TreeEntry list \<Rightarrow> objectWalker \<times> error option"
where
  "walkObjectTree p hash =
     (if isSeen p hash then (p, None)
      else case object_GetObject (Storer p) hash of
        Inl e \<Rightarrow> (fetch (add p hash) hash, Some (GetObjectFailed hash))
      | Inr (Commit treeHash parentHashes) \<Rightarrow>
          (case walkObjectTree (fetch (add p hash) hash) treeHash of
             (p', Some e) \<Rightarrow> (p', Some e)
           | (p', None) \<Rightarrow> walkParentHashes p' parentHashes)
      | Inr (Tree entries) \<Rightarrow> walkEntries (fetch (add p hash) hash) entries
      | Inr (Tag target) \<Rightarrow> walkObjectTree (fetch (add p hash) hash) target
      | Inr Blob \<Rightarrow> (fetch (add p hash) hash, Some (UnknownObject hash)))"
| "walkParentHashes p [] = (p, None)"
| "walkParentHashes p (h # hs) =
     (case walkObjectTree p h of
        (p', Some e) \<Rightarrow> (p', Some e)
      | (p', None) \<Rightarrow> walkParentHashes p' hs)"
| "walkEntries p [] = (p, None)"
| "walkEntries p (entry # entries) =
     (case Mode entry of
        Executable \<Rightarrow> walkEntries (add p (Hash entry)) entries
      | Regular \<Rightarrow> walkEntries (add p (Hash entry)) entries
      | Symlink \<Rightarrow> walkEntries (add p (Hash entry)) entries
      | Submodule \<Rightarrow> walkEntries p entries
      | Dir \<Rightarrow>
          (case walkObjectTree p (Hash entry) of
             (p', Some e) \<Rightarrow> (p', Some e)
           | (p', None) \<Rightarrow> walkEntries p' entries)
      | OtherMode m \<Rightarrow>
          (case walkObjectTree p (Hash entry) of
             (p', Some e) \<Rightarrow> (p', Some e)
           | (p', None) \<Rightarrow> walkEntries p' entries))"
  by pat_completeness auto

text \<open>
  Termination: a recursive call of \<open>walkObjectTree\<close> is made only after a stored object
  has been marked seen, and the walker's seen-set never shrinks.
\<close>

definition grows :: "objectWalker \<Rightarrow> objectWalker \<Rightarrow> bool" where
  "grows p p' =
     (Storer p' = Storer p \<and> seen p \<subseteq> seen p' \<and> (\<exists>hs. fetched p' = fetched p @ hs))"

definition unseenObjects :: "objectWalker \<Rightarrow> nat" where
  "unseenObjects p = card (fst ` set (objects (Storer p)) - seen p)"

fun walk_measure ::
  "objectWalker \<times> Hash + objectWalker \<times> Hash list + objectWalker \<times> TreeEntry list \<Rightarrow> nat \<times> nat" where
  "walk_measure (Inl (p, hash)) = (unseenObjects p, 0)"
| "walk_measure (Inr (Inl (p, hs))) = (unseenObjects p, Suc (length hs))"
| "walk_measure (Inr (Inr (p, es))) = (unseenObjects p, Suc (length es))"

lemma grows_refl: "grows p p"
  by (simp add: grows_def)

lemma grows_trans: "grows p q \<Longrightarrow> grows q r \<Longrightarrow> grows p r"
  by (auto simp: grows_def)

lemma grows_add: "grows p (add p h)"
  by (auto simp: grows_def add_def)

lemma grows_fetch: "grows p (fetch (add p h) h)"
  by (auto simp: grows_def add_def fetch_def)

lemma grows_fetch_trans: "grows (fetch (add p h) h) q \<Longrightarrow> grows p q"
  using grows_fetch grows_trans by blast

lemma grows_add_trans: "grows (add p h) q \<Longrightarrow> grows p q"
  using grows_add grows_trans by blast

lemma walk_dom_grows:
  "walkObjectTree_walkParentHashes_walkEntries_dom (Inl (p, hash)) \<Longrightarrow>
     grows p (fst (walkObjectTree p hash))"
  "walkObjectTree_walkParentHashes_walkEntries_dom (Inr (Inl (p1, hs))) \<Longrightarrow>
     grows p1 (fst (walkParentHashes p1 hs))"
  "walkObjectTree_walkParentHashes_walkEntries_dom (Inr (Inr (p2, es))) \<Longrightarrow>
     grows p2 (fst (walkEntries p2 es))"
proof (induction p hash and p1 hs and p2 es rule: walkObjectTree_walkParentHashes_walkEntries.pinduct)
  case (1 p hash)
  note ps = walkObjectTree.psimps[OF 1(1)]
  show ?case
  proof (cases "isSeen p hash")
    case True
    then show ?thesis by (simp add: ps grows_refl)
  next
    case False
    show ?thesis
    proof (cases "object_GetObject (Storer p) hash")
      case (Inl e)
      with False show ?thesis by (simp add: ps grows_fetch)
    next
      case (Inr obj)
      show ?thesis
      proof (cases obj)
        case (Commit treeHash parentHashes)
        note ih1 = 1(2)[OF False Inr Commit]
        obtain p2 r2 where w: "(p2, r2) = walkObjectTree (fetch (add p hash) hash) treeHash"
          by (metis surj_pair)
        have p12: "grows p p2" using ih1 w[symmetric] by (simp add: grows_fetch_trans)
        show ?thesis
        proof (cases r2)
          case None
          note ih2 = 1(3)[OF False Inr Commit w None]
          from False Inr Commit w[symmetric] None ih2 p12
          show ?thesis by (simp add: ps) (metis grows_trans)
        next
          case (Some e)
          from False Inr Commit w[symmetric] Some p12
          show ?thesis by (simp add: ps)
        qed
      next
        case (Tree entries)
        from False Inr Tree 1(4)[OF False Inr Tree]
        show ?thesis by (simp add: ps grows_fetch_trans)
      next
        case (Tag target)
        from False Inr Tag 1(5)[OF False Inr Tag]
        show ?thesis by (simp add: ps grows_fetch_trans)
      next
        case Blob
        with False Inr show ?thesis by (simp add: ps grows_fetch)
      qed
    qed
  qed
next
  case (2 p)
  then show ?case by (simp add: walkParentHashes.psimps grows_refl)
next
  case (3 p h hs)
  obtain p' r where w: "(p', r) = walkObjectTree p h" by (metis surj_pair)
  have a: "grows p p'" using 3(2) w[symmetric] by simp
  show ?case
  proof (cases r)
    case None
    from 3(1) w[symmetric] None 3(3)[OF w None] a show ?thesis
      by (simp add: walkParentHashes.psimps) (metis grows_trans)
  next
    case (Some e)
    from 3(1) w[symmetric] Some a show ?thesis
      by (simp add: walkParentHashes.psimps)
  qed
next
  case (4 p)
  then show ?case by (simp add: walkEntries.psimps grows_refl)
next
  case (5 p entry entries)
  obtain p' r where w: "(p', r) = walkObjectTree p (Hash entry)" by (metis surj_pair)
  show ?case
  proof (cases "Mode entry")
    case Dir
    have a: "grows p p'" using 5(2)[OF Dir] w[symmetric] by simp
    show ?thesis
    proof (cases r)
      case None
      from 5(1) Dir w[symmetric] None 5(3)[OF Dir w None] a show ?thesis
        by (simp add: walkEntries.psimps) (metis grows_trans)
    next
      case (Some e)
      from 5(1) Dir w[symmetric] Some a show ?thesis
        by (simp add: walkEntries.psimps)
    qed
  next
    case Regular
    from 5(1) Regular 5(4)[OF Regular] show ?thesis
      by (simp add: walkEntries.psimps grows_add_trans)
  next
    case Executable
    from 5(1) Executable 5(5)[OF Executable] show ?thesis
      by (simp add: walkEntries.psimps grows_add_trans)
  next
    case Symlink
    from 5(1) Symlink 5(6)[OF Symlink] show ?thesis
      by (simp add: walkEntries.psimps grows_add_trans)
  next
    case Submodule
    from 5(1) Submodule 5(7)[OF Submodule] show ?thesis
      by (simp add: walkEntries.psimps)
  next
    case (OtherMode m)
    have a: "grows p p'" using 5(8)[OF OtherMode] w[symmetric] by simp
    show ?thesis
    proof (cases r)
      case None
      from 5(1) OtherMode w[symmetric] None 5(9)[OF OtherMode w None] a show ?thesis
        by (simp add: walkEntries.psimps) (metis grows_trans)
    next
      case (Some e)
      from 5(1) OtherMode w[symmetric] Some a show ?thesis
        by (simp add: walkEntries.psimps)
    qed
  qed
qed

lemma unseenObjects_grows: "grows p p' \<Longrightarrow> unseenObjects p' \<le> unseenObjects p"
  unfolding unseenObjects_def grows_def
  by (auto intro!: card_mono)

lemma unseenObjects_fetch:
  assumes "\<not> isSeen p hash" and "object_GetObject (Storer p) hash = Inr obj"
  shows "unseenObjects (fetch (add p hash) hash) < unseenObjects p"
proof -
  have s: "Storer (fetch (add p hash) hash) = Storer p"
          "seen (fetch (add p hash) hash) = insert hash (seen p)"
    by (simp_all add: add_def fetch_def)
  from assms(2) have m: "map_of (objects (Storer p)) hash = Some obj"
    by (auto simp: object_GetObject_def split: option.splits)
  from m have "hash \<in> fst ` set (objects (Storer p))"
    by (metis map_of_eq_None_iff option.distinct(1))
  moreover from assms(1) have "hash \<notin> seen p" by (simp add: isSeen_def)
  ultimately have "fst ` set (objects (Storer p)) - insert hash (seen p)
                   \<subset> fst ` set (objects (Storer p)) - seen p"
    by auto
  then show ?thesis
    unfolding unseenObjects_def s by (intro psubset_card_mono) auto
qed

lemma unseenObjects_after:
  assumes "\<not> isSeen p hash" and "object_GetObject (Storer p) hash = Inr obj"
    and "grows (fetch (add p hash) hash) q"
  shows "unseenObjects q < unseenObjects p"
  using unseenObjects_fetch[OF assms(1,2)] unseenObjects_grows[OF assms(3)] by simp

lemma walk_total: "All walkObjectTree_walkParentHashes_walkEntries_dom"
proof (rule "walkObjectTree_walkParentHashes_walkEntries.termination"
         [where R = "inv_image (less_than <*lex*> less_than) walk_measure"], goal_cases)
  case 1
  show ?case by (intro wf_inv_image wf_lex_prod wf_less_than)
next
  case (2 p hash b x11 x12)
  then show ?case using unseenObjects_fetch[of p hash b] by simp
next
  case (3 p hash b x11 x12 x y)
  have "grows (fetch (add p hash) hash) x"
    using walk_dom_grows(1)[OF 3(6)] 3(4)[symmetric] by simp
  then show ?case using unseenObjects_after[OF 3(1) 3(2)] by simp
next
  case (4 p hash b x2)
  then show ?case using unseenObjects_fetch[of p hash b] by simp
next
  case (5 p hash b x3)
  then show ?case using unseenObjects_fetch[of p hash b] by simp
next
  case (6 p h hs)
  show ?case by simp
next
  case (7 p h hs x y)
  have "grows p x" using walk_dom_grows(1)[OF 7(3)] 7(1)[symmetric] by simp
  then have "unseenObjects x \<le> unseenObjects p" by (rule unseenObjects_grows)
  then show ?case by auto
next
  case (8 p entry entries)
  show ?case by simp
next
  case (9 p entry entries x y)
  have "grows p x" using walk_dom_grows(1)[OF 9(4)] 9(2)[symmetric] by simp
  then have "unseenObjects x \<le> unseenObjects p" by (rule unseenObjects_grows)
  then show ?case by auto
next
  case (10 p entry entries)
  have "unseenObjects (add p (Hash entry)) \<le> unseenObjects p"
    by (rule unseenObjects_grows[OF grows_add])
  then show ?case by auto
next
  case (11 p entry entries)
  have "unseenObjects (add p (Hash entry)) \<le> unseenObjects p"
    by (rule unseenObjects_grows[OF grows_add])
  then show ?case by auto
next
  case (12 p entry entries)
  have "unseenObjects (add p (Hash entry)) \<le> unseenObjects p"
    by (rule unseenObjects_grows[OF grows_add])
  then show ?case by auto
next
  case (13 p entry entries)
  show ?case by simp
next
  case (14 p entry entries m)
  show ?case by simp
next
  case (15 p entry entries m x y)
  have "grows p x" using walk_dom_grows(1)[OF 15(4)] 15(2)[symmetric] by simp
  then have "unseenObjects x \<le> unseenObjects p" by (rule unseenObjects_grows)
  then show ?case by auto
qed

termination walkObjectTree
  by (rule walk_total)

declare walkObjectTree.simps [simp del]

lemma walk_grows:
  "grows p (fst (walkObjectTree p hash))"
  "grows p (fst (walkParentHashes p hs))"
  "grows p (fst (walkEntries p es))"
  using walk_dom_grows walk_total by blast+

text \<open>The loop of \<^verbatim>\<open>it.ForEach\<close> in \<^verbatim>\<open>walkAllRefs\<close>: it stops at the first error.\<close>

fun walkAllRefs_ForEach :: "objectWalker \<Rightarrow> Reference list \<Rightarrow> objectWalker \<times> error option" where
  "walkAllRefs_ForEach p [] = (p, None)"
| "walkAllRefs_ForEach p (ref # refs) =
     (if RefType ref \<noteq> HashReference then walkAllRefs_ForEach p refs
      else case walkObjectTree p (RefHash ref) of
             (p', Some e) \<Rightarrow> (p', Some e)
           | (p', None) \<Rightarrow> walkAllRefs_ForEach p' refs)"

definition walkAllRefs :: "objectWalker \<Rightarrow> objectWalker \<times> error option" where
  "walkAllRefs p =
     (case IterReferences (Storer p) of
        Inl e \<Rightarrow> (p, Some e)
      | Inr it \<Rightarrow> walkAllRefs_ForEach p it)"

definition isFileMode :: "FileMode \<Rightarrow> bool" where
  "isFileMode m = (m = Executable \<or> m = Regular \<or> m = Symlink)"

definition isWalkedMode :: "FileMode \<Rightarrow> bool" where
  "isWalkedMode m = (\<not> isFileMode m \<and> m \<noteq> Submodule)"

lemma walk_invariant:
  assumes T_commit: "\<And>h t ps. h \<in> T \<Longrightarrow> object_GetObject s h = Inr (Commit t ps) \<Longrightarrow> t \<in> T \<and> set ps \<subseteq> T"
    and T_tag: "\<And>h t. h \<in> T \<Longrightarrow> object_GetObject s h = Inr (Tag t) \<Longrightarrow> t \<in> T"
    and T_tree: "\<And>h es e. h \<in> T \<Longrightarrow> object_GetObject s h = Inr (Tree es) \<Longrightarrow> e \<in> set es \<Longrightarrow>
                   isWalkedMode (Mode e) \<Longrightarrow> Hash e \<in> T"
    and step_fetch: "\<And>p h. Storer p = s \<Longrightarrow> I p \<Longrightarrow> h \<in> T \<Longrightarrow> \<not> isSeen p h \<Longrightarrow> I (fetch (add p h) h)"
    and step_add: "\<And>p h es e. Storer p = s \<Longrightarrow> I p \<Longrightarrow> h \<in> T \<Longrightarrow> object_GetObject s h = Inr (Tree es) \<Longrightarrow>
                   e \<in> set es \<Longrightarrow> isFileMode (Mode e) \<Longrightarrow> I (add p (Hash e))"
  shows "Storer p = s \<longrightarrow> I p \<longrightarrow> hash \<in> T \<longrightarrow> I (fst (walkObjectTree p hash))"
    and "Storer p1 = s \<longrightarrow> I p1 \<longrightarrow> set hs \<subseteq> T \<longrightarrow> I (fst (walkParentHashes p1 hs))"
    and "\<forall>h es0. Storer p2 = s \<longrightarrow> I p2 \<longrightarrow> h \<in> T \<longrightarrow> object_GetObject s h = Inr (Tree es0) \<longrightarrow>
           set es \<subseteq> set es0 \<longrightarrow> I (fst (walkEntries p2 es))"
proof (induction p hash and p1 hs and p2 es rule: walkObjectTree_walkParentHashes_walkEntries.induct)
  case (1 p hash)
  show ?case
  proof (intro impI)
    assume s: "Storer p = s" and i: "I p" and t: "hash \<in> T"
    show "I (fst (walkObjectTree p hash))"
    proof (cases "isSeen p hash")
      case True
      with i show ?thesis by (simp add: walkObjectTree.simps)
    next
      case False
      let ?p1 = "fetch (add p hash) hash"
      have i1: "I ?p1" using step_fetch[OF s i t False] .
      have s1: "Storer ?p1 = s" using s by (simp add: fetch_def add_def)
      show ?thesis
      proof (cases "object_GetObject (Storer p) hash")
        case (Inl e)
        with False i1 show ?thesis by (simp add: walkObjectTree.simps)
      next
        case (Inr obj)
        show ?thesis
        proof (cases obj)
          case (Commit treeHash parentHashes)
          from T_commit[OF t] Inr Commit s have tt: "treeHash \<in> T" and pt: "set parentHashes \<subseteq> T"
            by auto
          obtain p2 r2 where w: "(p2, r2) = walkObjectTree ?p1 treeHash" by (metis surj_pair)
          have i2: "I p2" using 1(1)[OF False Inr Commit] s1 i1 tt w[symmetric] by simp
          have s2: "Storer p2 = s" using walk_grows(1)[of ?p1 treeHash] w[symmetric] s1
            by (simp add: grows_def)
          show ?thesis
          proof (cases r2)
            case None
            from 1(2)[OF False Inr Commit w None] s2 i2 pt
            have "I (fst (walkParentHashes p2 parentHashes))" by simp
            with False Inr Commit w[symmetric] None show ?thesis
              by (simp add: walkObjectTree.simps)
          next
            case (Some e)
            with False Inr Commit w[symmetric] i2 show ?thesis
              by (simp add: walkObjectTree.simps)
          qed
        next
          case (Tree entries)
          from 1(3)[OF False Inr Tree] s1 i1 t Inr Tree s
          have "I (fst (walkEntries ?p1 entries))" by auto
          with False Inr Tree show ?thesis by (simp add: walkObjectTree.simps)
        next
          case (Tag target)
          from T_tag[OF t] Inr Tag s have "target \<in> T" by auto
          with 1(4)[OF False Inr Tag] s1 i1
          have "I (fst (walkObjectTree ?p1 target))" by simp
          with False Inr Tag show ?thesis by (simp add: walkObjectTree.simps)
        next
          case Blob
          with False Inr i1 show ?thesis by (simp add: walkObjectTree.simps)
        qed
      qed
    qed
  qed
next
  case (2 p)
  show ?case by simp
next
  case (3 p h hs)
  show ?case
  proof (intro impI)
    assume s: "Storer p = s" and i: "I p" and t: "set (h # hs) \<subseteq> T"
    obtain p' r where w: "(p', r) = walkObjectTree p h" by (metis surj_pair)
    have i': "I p'" using 3(1) s i t w[symmetric] by simp
    have s': "Storer p' = s" using walk_grows(1)[of p h] w[symmetric] s by (simp add: grows_def)
    show "I (fst (walkParentHashes p (h # hs)))"
    proof (cases r)
      case None
      from 3(2)[OF w None] s' i' t have "I (fst (walkParentHashes p' hs))" by simp
      with w[symmetric] None show ?thesis by simp
    next
      case (Some e)
      with w[symmetric] i' show ?thesis by simp
    qed
  qed
next
  case (4 p)
  show ?case by simp
next
  case (5 p entry entries)
  show ?case
  proof (intro allI impI)
    fix h es0
    assume s: "Storer p = s" and i: "I p" and t: "h \<in> T"
      and g: "object_GetObject s h = Inr (Tree es0)" and sub: "set (entry # entries) \<subseteq> set es0"
    from sub have e0: "entry \<in> set es0" and sub': "set entries \<subseteq> set es0" by auto
    obtain p' r where w: "(p', r) = walkObjectTree p (Hash entry)" by (metis surj_pair)
    have s': "Storer p' = s"
      using walk_grows(1)[of p "Hash entry"] w[symmetric] s by (simp add: grows_def)
    have sa: "Storer (add p (Hash entry)) = s" using s by (simp add: add_def)
    have walked: "isWalkedMode (Mode entry) \<Longrightarrow> I p'"
      "isWalkedMode (Mode entry) \<Longrightarrow> r = None \<Longrightarrow> I (fst (walkEntries p' entries))"
    proof -
      assume m: "isWalkedMode (Mode entry)"
      have ht: "Hash entry \<in> T" using T_tree[OF t g e0 m] .
      from m consider "Mode entry = Dir" | m' where "Mode entry = OtherMode m'"
        by (cases "Mode entry") (auto simp: isWalkedMode_def isFileMode_def)
      then show i': "I p'"
      proof cases
        case 1
        from 5(1)[OF 1] s i ht w[symmetric] show ?thesis by simp
      next
        case 2
        from 5(7)[OF 2] s i ht w[symmetric] show ?thesis by simp
      qed
      assume n: "r = None"
      from m consider "Mode entry = Dir" | m' where "Mode entry = OtherMode m'"
        by (cases "Mode entry") (auto simp: isWalkedMode_def isFileMode_def)
      then show "I (fst (walkEntries p' entries))"
      proof cases
        case 1
        from 5(2)[OF 1 w n] s' i' t g sub' show ?thesis by blast
      next
        case 2
        from 5(8)[OF 2 w n] s' i' t g sub' show ?thesis by blast
      qed
    qed
    have fm: "isFileMode (Mode entry) \<Longrightarrow> I (add p (Hash entry))"
      using step_add[OF s i t g e0] .
    show "I (fst (walkEntries p (entry # entries)))"
    proof (cases "Mode entry")
      case Dir
      then have m: "isWalkedMode (Mode entry)" by (simp add: isWalkedMode_def isFileMode_def)
      show ?thesis using Dir walked[OF m] w[symmetric] by (cases r) simp_all
    next
      case Regular
      then have m: "isFileMode (Mode entry)" by (simp add: isFileMode_def)
      from 5(3)[OF Regular] sa fm[OF m] t g sub' Regular show ?thesis by auto
    next
      case Executable
      then have m: "isFileMode (Mode entry)" by (simp add: isFileMode_def)
      from 5(4)[OF Executable] sa fm[OF m] t g sub' Executable show ?thesis by auto
    next
      case Symlink
      then have m: "isFileMode (Mode entry)" by (simp add: isFileMode_def)
      from 5(5)[OF Symlink] sa fm[OF m] t g sub' Symlink show ?thesis by auto
    next
      case Submodule
      from 5(6)[OF Submodule] s i t g sub' Submodule show ?thesis by auto
    next
      case (OtherMode m')
      then have m: "isWalkedMode (Mode entry)" by (simp add: isWalkedMode_def isFileMode_def)
      show ?thesis using OtherMode walked[OF m] w[symmetric] by (cases r) simp_all
    qed
  qed
qed

lemma walkObjectTree_seen: "isSeen p hash \<Longrightarrow> walkObjectTree p hash = (p, None)"
  by (simp add: walkObjectTree.simps)

lemma walkObjectTree_unseen_grows:
  assumes "\<not> isSeen p hash"
  shows "grows (fetch (add p hash) hash) (fst (walkObjectTree p hash))"
proof (cases "object_GetObject (Storer p) hash")
  case (Inl e)
  with assms show ?thesis by (simp add: walkObjectTree.simps grows_refl)
next
  case (Inr obj)
  let ?p1 = "fetch (add p hash) hash"
  show ?thesis
  proof (cases obj)
    case (Commit treeHash parentHashes)
    obtain p2 r2 where w: "walkObjectTree ?p1 treeHash = (p2, r2)" by (metis surj_pair)
    have g2: "grows ?p1 p2" using walk_grows(1)[of ?p1 treeHash] w by simp
    show ?thesis
    proof (cases r2)
      case None
      have "grows p2 (fst (walkParentHashes p2 parentHashes))" by (rule walk_grows(2))
      with g2 have "grows ?p1 (fst (walkParentHashes p2 parentHashes))" by (rule grows_trans)
      with assms Inr Commit w None show ?thesis by (simp add: walkObjectTree.simps)
    next
      case (Some e)
      with assms Inr Commit w g2 show ?thesis by (simp add: walkObjectTree.simps)
    qed
  next
    case (Tree entries)
    with assms Inr walk_grows(3)[of ?p1 entries] show ?thesis by (simp add: walkObjectTree.simps)
  next
    case (Tag target)
    with assms Inr walk_grows(1)[of ?p1 target] show ?thesis by (simp add: walkObjectTree.simps)
  next
    case Blob
    with assms Inr show ?thesis by (simp add: walkObjectTree.simps grows_refl)
  qed
qed

lemma walkObjectTree_marks: "hash \<in> seen (fst (walkObjectTree p hash))"
proof (cases "isSeen p hash")
  case True
  then show ?thesis by (simp add: walkObjectTree_seen) (simp add: isSeen_def)
next
  case False
  have "hash \<in> seen (fetch (add p hash) hash)" by (simp add: fetch_def add_def)
  with walkObjectTree_unseen_grows[OF False] show ?thesis by (auto simp: grows_def)
qed

lemma walkObjectTree_fetches:
  "\<not> isSeen p hash \<Longrightarrow> hash \<in> set (fetched (fst (walkObjectTree p hash)))"
  using walkObjectTree_unseen_grows[of p hash] by (auto simp: grows_def fetch_def add_def)

text \<open>Each fetch is of a hash that was not yet seen, and marks it: no hash is fetched twice.\<close>

definition fetched_once :: "objectWalker \<Rightarrow> bool" where
  "fetched_once p = (distinct (fetched p) \<and> set (fetched p) \<subseteq> seen p)"

lemma fetched_once_walk:
  "fetched_once p \<Longrightarrow> fetched_once (fst (walkObjectTree p hash))"
  "fetched_once p \<Longrightarrow> fetched_once (fst (walkParentHashes p hs))"
proof -
  have "Storer p = Storer p \<longrightarrow> fetched_once p \<longrightarrow> hash \<in> UNIV \<longrightarrow>
          fetched_once (fst (walkObjectTree p hash))"
    by (rule walk_invariant(1)[where T = UNIV and s = "Storer p" and I = fetched_once])
       (auto simp: fetched_once_def fetch_def add_def isSeen_def)
  then show "fetched_once p \<Longrightarrow> fetched_once (fst (walkObjectTree p hash))" by simp
  have "Storer p = Storer p \<longrightarrow> fetched_once p \<longrightarrow> set hs \<subseteq> UNIV \<longrightarrow>
          fetched_once (fst (walkParentHashes p hs))"
    by (rule walk_invariant(2)[where T = UNIV and s = "Storer p" and I = fetched_once])
       (auto simp: fetched_once_def fetch_def add_def isSeen_def)
  then show "fetched_once p \<Longrightarrow> fetched_once (fst (walkParentHashes p hs))" by simp
qed

text \<open>The loop over the references walks the hashes of the direct-hash references, in order.\<close>

definition isHashReference :: "Reference \<Rightarrow> bool" where
  "isHashReference ref = (RefType ref = HashReference)"

lemma walkAllRefs_ForEach_eq:
  "walkAllRefs_ForEach p refs = walkParentHashes p (map RefHash (filter isHashReference refs))"
proof (induction refs arbitrary: p)
  case Nil
  show ?case by simp
next
  case (Cons ref refs)
  show ?case
  proof (cases "isHashReference ref")
    case True
    then show ?thesis
      using Cons by (simp add: isHashReference_def split: prod.splits option.splits)
  next
    case False
    then show ?thesis using Cons by (simp add: isHashReference_def)
  qed
qed

lemma walkAllRefs_eq:
  "walkAllRefs p = walkParentHashes p (map RefHash (filter isHashReference (references (Storer p))))"
  by (simp add: walkAllRefs_def IterReferences_def walkAllRefs_ForEach_eq)

lemma fetched_once_new: "fetched_once (newObjectWalker s)"
  by (simp add: fetched_once_def newObjectWalker_def)

lemma walkParentHashes_marks:
  "snd (walkParentHashes p hs) = None \<Longrightarrow> set hs \<subseteq> seen (fst (walkParentHashes p hs))"
proof (induction hs arbitrary: p)
  case Nil
  show ?case by simp
next
  case (Cons h hs)
  obtain p' r where w: "walkObjectTree p h = (p', r)" by (metis surj_pair)
  from Cons.prems w have r: "r = None" by (cases r) simp_all
  from Cons.prems w r have n: "snd (walkParentHashes p' hs) = None" by simp
  have "h \<in> seen p'" using walkObjectTree_marks[of h p] w by simp
  moreover have "grows p' (fst (walkParentHashes p' hs))" by (rule walk_grows(2))
  ultimately have "h \<in> seen (fst (walkParentHashes p' hs))" by (auto simp: grows_def)
  with Cons.IH[OF n] w r show ?case by simp
qed

text \<open>
  What a walk from \<open>p\<close> to \<open>p'\<close> with result \<open>r\<close> has done: the tree of every commit it
  fetched is marked, and if it returned no error, every hash it fetched is a stored object
  that is not a blob.
\<close>

definition walk_post :: "objectWalker \<Rightarrow> objectWalker \<Rightarrow> error option \<Rightarrow> bool" where
  "walk_post p p' r =
     ((\<forall>c t ps. c \<in> set (fetched p') \<longrightarrow> c \<notin> set (fetched p) \<longrightarrow>
          object_GetObject (Storer p) c = Inr (Commit t ps) \<longrightarrow> t \<in> seen p') \<and>
      (r = None \<longrightarrow>
        (\<forall>x \<in> set (fetched p'). x \<notin> set (fetched p) \<longrightarrow>
          (\<exists>obj. object_GetObject (Storer p) x = Inr obj \<and> obj \<noteq> Blob))))"

lemma walk_post_refl: "walk_post p p r"
  by (simp add: walk_post_def)

lemma walk_post_trans:
  assumes "grows p q" "grows q q'" "walk_post p q None" "walk_post q q' r"
  shows "walk_post p q' r"
  using assms unfolding walk_post_def grows_def
  by (auto; blast)

lemma walk_post_add: "walk_post (add p h) q r \<Longrightarrow> walk_post p q r"
  by (simp add: walk_post_def add_def)

lemma walk_post_fetch_fail:
  assumes "\<forall>t ps. object_GetObject (Storer p) h \<noteq> Inr (Commit t ps)"
  shows "walk_post p (fetch (add p h) h) (Some e)"
  using assms by (auto simp: walk_post_def fetch_def add_def)

lemma walk_post_fetch:
  assumes "object_GetObject (Storer p) h = Inr obj" "obj \<noteq> Blob"
    and "\<forall>t ps. obj = Commit t ps \<longrightarrow> t \<in> seen q"
    and "walk_post (fetch (add p h) h) q r"
  shows "walk_post p q r"
  using assms unfolding walk_post_def
  by (auto simp: fetch_def add_def) (metis sum.inject(2))+

lemma walk_posts:
  "walk_post p (fst (walkObjectTree p hash)) (snd (walkObjectTree p hash))"
  "walk_post p1 (fst (walkParentHashes p1 hs)) (snd (walkParentHashes p1 hs))"
  "walk_post p2 (fst (walkEntries p2 es)) (snd (walkEntries p2 es))"
proof (induction p hash and p1 hs and p2 es rule: walkObjectTree_walkParentHashes_walkEntries.induct)
  case (1 p hash)
  show ?case
  proof (cases "isSeen p hash")
    case True
    then show ?thesis by (simp add: walkObjectTree_seen walk_post_refl)
  next
    case False
    let ?p1 = "fetch (add p hash) hash"
    show ?thesis
    proof (cases "object_GetObject (Storer p) hash")
      case (Inl e)
      with False show ?thesis by (simp add: walkObjectTree.simps walk_post_fetch_fail)
    next
      case (Inr obj)
      show ?thesis
      proof (cases obj)
        case (Commit treeHash parentHashes)
        obtain p2 r2 where w: "(p2, r2) = walkObjectTree ?p1 treeHash" by (metis surj_pair)
        have ih1: "walk_post ?p1 p2 r2" using 1(1)[OF False Inr Commit] w[symmetric] by simp
        have g12: "grows ?p1 p2" using walk_grows(1)[of ?p1 treeHash] w[symmetric] by simp
        have m2: "treeHash \<in> seen p2" using walkObjectTree_marks[of treeHash ?p1] w[symmetric] by simp
        show ?thesis
        proof (cases r2)
          case None
          let ?p3 = "fst (walkParentHashes p2 parentHashes)"
          let ?r3 = "snd (walkParentHashes p2 parentHashes)"
          have ih2: "walk_post p2 ?p3 ?r3" using 1(2)[OF False Inr Commit w None] .
          have g23: "grows p2 ?p3" by (rule walk_grows(2))
          have "walk_post ?p1 ?p3 ?r3" using g12 g23 ih1 ih2 None walk_post_trans by blast
          moreover have "treeHash \<in> seen ?p3" using m2 g23 by (auto simp: grows_def)
          ultimately have "walk_post p ?p3 ?r3"
            using walk_post_fetch[of p hash obj ?p3 ?r3] Inr Commit by simp
          with False Inr Commit w[symmetric] None show ?thesis
            by (simp add: walkObjectTree.simps)
        next
          case (Some e)
          have "walk_post p p2 r2"
            using walk_post_fetch[of p hash obj p2 r2] Inr Commit m2 ih1 by simp
          with False Inr Commit w[symmetric] Some show ?thesis
            by (simp add: walkObjectTree.simps)
        qed
      next
        case (Tree entries)
        have "walk_post p (fst (walkEntries ?p1 entries)) (snd (walkEntries ?p1 entries))"
          using walk_post_fetch[of p hash obj] Inr Tree 1(3)[OF False Inr Tree] by simp
        with False Inr Tree show ?thesis by (simp add: walkObjectTree.simps)
      next
        case (Tag target)
        have "walk_post p (fst (walkObjectTree ?p1 target)) (snd (walkObjectTree ?p1 target))"
          using walk_post_fetch[of p hash obj] Inr Tag 1(4)[OF False Inr Tag] by simp
        with False Inr Tag show ?thesis by (simp add: walkObjectTree.simps)
      next
        case Blob
        with False Inr show ?thesis by (simp add: walkObjectTree.simps walk_post_fetch_fail)
      qed
    qed
  qed
next
  case (2 p)
  show ?case by (simp add: walk_post_refl)
next
  case (3 p h hs)
  obtain p' r where w: "(p', r) = walkObjectTree p h" by (metis surj_pair)
  have ih1: "walk_post p p' r" using 3(1) w[symmetric] by simp
  have g: "grows p p'" using walk_grows(1)[of p h] w[symmetric] by simp
  show ?case
  proof (cases r)
    case None
    have "walk_post p (fst (walkParentHashes p' hs)) (snd (walkParentHashes p' hs))"
      using walk_post_trans[OF g walk_grows(2)[of p' hs]] ih1 None 3(2)[OF w None] by simp
    with w[symmetric] None show ?thesis by simp
  next
    case (Some e)
    with w[symmetric] ih1 show ?thesis by simp
  qed
next
  case (4 p)
  show ?case by (simp add: walk_post_refl)
next
  case (5 p entry entries)
  obtain p' r where w: "(p', r) = walkObjectTree p (Hash entry)" by (metis surj_pair)
  have g: "grows p p'" using walk_grows(1)[of p "Hash entry"] w[symmetric] by simp
  have rec: "walk_post p p' r \<Longrightarrow> (r = None \<Longrightarrow>
               walk_post p' (fst (walkEntries p' entries)) (snd (walkEntries p' entries))) \<Longrightarrow>
             walk_post p
               (fst (case walkObjectTree p (Hash entry) of
                       (p', Some e) \<Rightarrow> (p', Some e)
                     | (p', None) \<Rightarrow> walkEntries p' entries))
               (snd (case walkObjectTree p (Hash entry) of
                       (p', Some e) \<Rightarrow> (p', Some e)
                     | (p', None) \<Rightarrow> walkEntries p' entries))"
  proof -
    assume ih1: "walk_post p p' r"
      and ih2: "r = None \<Longrightarrow>
                  walk_post p' (fst (walkEntries p' entries)) (snd (walkEntries p' entries))"
    show ?thesis
    proof (cases r)
      case None
      have "walk_post p (fst (walkEntries p' entries)) (snd (walkEntries p' entries))"
        using walk_post_trans[OF g walk_grows(3)[of p' entries]] ih1 None ih2 by simp
      with w[symmetric] None show ?thesis by simp
    next
      case (Some e)
      with w[symmetric] ih1 show ?thesis by simp
    qed
  qed
  show ?case
  proof (cases "Mode entry")
    case Dir
    have "walk_post p p' r" using 5(1)[OF Dir] w[symmetric] by simp
    from rec[OF this 5(2)[OF Dir w]] Dir show ?thesis by simp
  next
    case Regular
    with 5(3)[OF Regular] show ?thesis by (simp add: walk_post_add)
  next
    case Executable
    with 5(4)[OF Executable] show ?thesis by (simp add: walk_post_add)
  next
    case Symlink
    with 5(5)[OF Symlink] show ?thesis by (simp add: walk_post_add)
  next
    case Submodule
    with 5(6)[OF Submodule] show ?thesis by simp
  next
    case (OtherMode m)
    have "walk_post p p' r" using 5(7)[OF OtherMode] w[symmetric] by simp
    from rec[OF this 5(8)[OF OtherMode w]] OtherMode show ?thesis by simp
  qed
qed

text \<open>
  \<open>fileEntryHashes s\<close>: the hashes that trees of the store list with a regular, executable or
  symlink mode. \<open>referencedHashes s\<close>: the hashes that objects of the store refer to as a
  commit's tree or parent, a tag's target, or a tree entry that is not a submodule.
\<close>

definition fileEntryHashes :: "Storer \<Rightarrow> Hash list" where
  "fileEntryHashes s =
     concat (map (\<lambda>(h, obj). case obj of
                    Tree es \<Rightarrow> map Hash (filter (\<lambda>e. isFileMode (Mode e)) es)
                  | _ \<Rightarrow> []) (objects s))"

definition referencedHashes :: "Storer \<Rightarrow> Hash list" where
  "referencedHashes s =
     concat (map (\<lambda>(h, obj). case obj of
                    Commit t ps \<Rightarrow> t # ps
                  | Tree es \<Rightarrow> map Hash (filter (\<lambda>e. Mode e \<noteq> Submodule) es)
                  | Tag t \<Rightarrow> [t]
                  | Blob \<Rightarrow> []) (objects s))"

lemma GetObject_in_objects: "object_GetObject s h = Inr obj \<Longrightarrow> (h, obj) \<in> set (objects s)"
  by (auto simp: object_GetObject_def split: option.splits dest: map_of_SomeD)

lemma fileEntryHashes_I:
  "object_GetObject s h = Inr (Tree es) \<Longrightarrow> e \<in> set es \<Longrightarrow> isFileMode (Mode e) \<Longrightarrow>
     Hash e \<in> set (fileEntryHashes s)"
  by (drule GetObject_in_objects) (force simp: fileEntryHashes_def)

lemma referencedHashes_Commit:
  "object_GetObject s h = Inr (Commit t ps) \<Longrightarrow> t \<in> set (referencedHashes s) \<and> set ps \<subseteq> set (referencedHashes s)"
  by (drule GetObject_in_objects) (force simp: referencedHashes_def)

lemma referencedHashes_Tag:
  "object_GetObject s h = Inr (Tag t) \<Longrightarrow> t \<in> set (referencedHashes s)"
  by (drule GetObject_in_objects) (force simp: referencedHashes_def)

lemma referencedHashes_Tree:
  "object_GetObject s h = Inr (Tree es) \<Longrightarrow> e \<in> set es \<Longrightarrow> Mode e \<noteq> Submodule \<Longrightarrow>
     Hash e \<in> set (referencedHashes s)"
  by (drule GetObject_in_objects) (force simp: referencedHashes_def)

lemma seen_fetched_or_file:
  assumes "seen p \<subseteq> set (fetched p) \<union> set (fileEntryHashes (Storer p))"
  shows "seen (fst (walkParentHashes p hs))
           \<subseteq> set (fetched (fst (walkParentHashes p hs))) \<union> set (fileEntryHashes (Storer p))"
proof -
  have "Storer p = Storer p \<longrightarrow> seen p \<subseteq> set (fetched p) \<union> set (fileEntryHashes (Storer p)) \<longrightarrow>
          set hs \<subseteq> UNIV \<longrightarrow>
          seen (fst (walkParentHashes p hs))
            \<subseteq> set (fetched (fst (walkParentHashes p hs))) \<union> set (fileEntryHashes (Storer p))"
    by (rule walk_invariant(2)[where T = UNIV and s = "Storer p"
          and I = "\<lambda>q. seen q \<subseteq> set (fetched q) \<union> set (fileEntryHashes (Storer p))"])
       (auto simp: fetch_def add_def dest: fileEntryHashes_I)
  with assms show ?thesis by simp
qed

lemma seen_within:
  assumes "set hs \<subseteq> R"
  shows "seen (fst (walkParentHashes p hs)) \<subseteq> seen p \<union> R \<union> set (referencedHashes (Storer p))"
proof -
  let ?T = "R \<union> set (referencedHashes (Storer p))"
  have "Storer p = Storer p \<longrightarrow> seen p \<subseteq> seen p \<union> ?T \<longrightarrow> set hs \<subseteq> ?T \<longrightarrow>
          seen (fst (walkParentHashes p hs)) \<subseteq> seen p \<union> ?T"
  proof (rule walk_invariant(2)[where T = ?T and s = "Storer p"
          and I = "\<lambda>q. seen q \<subseteq> seen p \<union> ?T"], goal_cases)
    case (1 h t ps)
    then show ?case using referencedHashes_Commit[of "Storer p" h t ps] by auto
  next
    case (2 h t)
    then show ?case using referencedHashes_Tag[of "Storer p" h t] by auto
  next
    case (3 h es e)
    then show ?case using referencedHashes_Tree[of "Storer p" h es e]
      by (auto simp: isWalkedMode_def)
  next
    case (4 q h)
    then show ?case by (auto simp: fetch_def add_def)
  next
    case (5 q h es e)
    then show ?case using referencedHashes_Tree[of "Storer p" h es e]
      by (auto simp: add_def isFileMode_def)
  qed
  with assms show ?thesis by auto
qed

lemma count_list_distinct:
  "distinct xs \<Longrightarrow> count_list xs x = (if x \<in> set xs then 1 else 0)"
  by (induction xs) auto

text \<open>The walker that \<^verbatim>\<open>serveGitUploadPack\<close> runs: a fresh one, over all references.\<close>

definition walked :: "Storer \<Rightarrow> objectWalker" where
  "walked s = fst (walkAllRefs (newObjectWalker s))"

lemma walked_Storer: "Storer (walked s) = s"
  using walk_grows(2)[of "newObjectWalker s"]
  by (simp add: walked_def walkAllRefs_eq grows_def) (simp add: newObjectWalker_def)

lemma walked_fetched_once: "fetched_once (walked s)"
  by (simp add: walked_def walkAllRefs_eq fetched_once_walk(2) fetched_once_new)

lemma walked_tree_of_commit:
  assumes "c \<in> set (fetched (walked s))" and "object_GetObject s c = Inr (Commit t ps)"
  shows "t \<in> seen (walked s)"
  using walk_posts(2)[of "newObjectWalker s"
          "map RefHash (filter isHashReference (references s))"] assms
  by (simp add: walked_def walkAllRefs_eq walk_post_def) (auto simp: newObjectWalker_def)

lemma walked_seen_fetched_or_file:
  "seen (walked s) \<subseteq> set (fetched (walked s)) \<union> set (fileEntryHashes s)"
  using seen_fetched_or_file[of "newObjectWalker s"
          "map RefHash (filter isHashReference (references s))"]
  by (simp add: walked_def walkAllRefs_eq) (simp add: newObjectWalker_def)

subsection \<open>Example stores\<close>

definition ZeroHash :: Hash where
  "ZeroHash = replicate 20 0"

definition NewHashReference :: "string \<Rightarrow> Hash \<Rightarrow> Reference" where
  "NewHashReference n h = \<lparr>RefType = HashReference, RefName = n, RefHash = h, RefTarget = []\<rparr>"

definition NewSymbolicReference :: "string \<Rightarrow> string \<Rightarrow> Reference" where
  "NewSymbolicReference n target =
     \<lparr>RefType = SymbolicReference, RefName = n, RefHash = ZeroHash, RefTarget = target\<rparr>"

text \<open>A 20-byte hash for examples: the byte \<open>b\<close> twenty times.\<close>

definition hashOf :: "byte \<Rightarrow> Hash" where
  "hashOf b = replicate 20 b"

lemma hashOf_eq [simp]: "(hashOf a = hashOf b) = (a = b)"
  by (simp add: hashOf_def)

text \<open>
  The repository of \<^verbatim>\<open>initRepo\<close> (a blob, a tree listing it as \<^verbatim>\<open>README.md\<close>, a commit,
  the branch \<^verbatim>\<open>main\<close> and the symbolic \<^verbatim>\<open>HEAD\<close>) with a second commit on the same tree
  and a branch \<^verbatim>\<open>old\<close> at the first commit.
\<close>

definition twoCommitStore :: Storer where
  "twoCommitStore =
     \<lparr>objects =
        [(hashOf 1, Blob),
         (hashOf 2, Tree [\<lparr>Name = ''README.md'', Mode = Regular, Hash = hashOf 1\<rparr>]),
         (hashOf 3, Commit (hashOf 2) []),
         (hashOf 4, Commit (hashOf 2) [hashOf 3])],
      references =
        [NewSymbolicReference ''HEAD'' ''refs/heads/main'',
         NewHashReference ''refs/heads/main'' (hashOf 4),
         NewHashReference ''refs/heads/old'' (hashOf 3)]\<rparr>"

lemma walkAllRefs_twoCommitStore:
  "walkAllRefs (newObjectWalker twoCommitStore) =
     (\<lparr>Storer = twoCommitStore,
       seen = {hashOf 4, hashOf 2, hashOf 1, hashOf 3},
       fetched = [hashOf 4, hashOf 2, hashOf 3]\<rparr>, None)"
  by (simp add: walkAllRefs_def IterReferences_def newObjectWalker_def twoCommitStore_def
        NewHashReference_def NewSymbolicReference_def walkObjectTree.simps isSeen_def add_def
        fetch_def object_GetObject_def insert_commute)

lemma walked_twoCommitStore:
  "walked twoCommitStore =
     \<lparr>Storer = twoCommitStore,
      seen = {hashOf 4, hashOf 2, hashOf 1, hashOf 3},
      fetched = [hashOf 4, hashOf 2, hashOf 3]\<rparr>"
  by (simp add: walked_def walkAllRefs_twoCommitStore)

subsection \<open>Each object is fetched at most once\<close>

text \<open>
  Two commits, \<open>hashOf 4\<close> and \<open>hashOf 5\<close>, share the tree \<open>hashOf 2\<close>; a third commit
  has the tree \<open>hashOf 1\<close>, which lists the hash of the shared tree as a regular file.
\<close>

definition treeAsFileStore :: Storer where
  "treeAsFileStore =
     \<lparr>objects =
        [(hashOf 1, Tree [\<lparr>Name = ''shared'', Mode = Regular, Hash = hashOf 2\<rparr>]),
         (hashOf 2, Tree []),
         (hashOf 3, Commit (hashOf 1) []),
         (hashOf 4, Commit (hashOf 2) []),
         (hashOf 5, Commit (hashOf 2) [hashOf 4])],
      references =
        [NewHashReference ''refs/heads/a'' (hashOf 3),
         NewHashReference ''refs/heads/b'' (hashOf 5)]\<rparr>"

lemma walkAllRefs_treeAsFileStore:
  "walkAllRefs (newObjectWalker treeAsFileStore) =
     (\<lparr>Storer = treeAsFileStore,
       seen = {hashOf 3, hashOf 1, hashOf 2, hashOf 5, hashOf 4},
       fetched = [hashOf 3, hashOf 1, hashOf 5, hashOf 4]\<rparr>, None)"
  by (simp add: walkAllRefs_def IterReferences_def newObjectWalker_def treeAsFileStore_def
        NewHashReference_def walkObjectTree.simps isSeen_def add_def
        fetch_def object_GetObject_def insert_commute)

text \<open>
  Claim C1, as stated, fails in its last part. In \<open>treeAsFileStore\<close> the walk returns no
  error and fetches both commits that refer to the tree \<open>hashOf 2\<close>, but it never fetches
  that tree: the regular entry of the tree \<open>hashOf 1\<close>, walked before, has marked the hash
  without a fetch, so \<^verbatim>\<open>walkObjectTree\<close> returns at once for both commits. The tree is
  fetched zero times, not exactly once.
\<close>

theorem walk_fetches_each_object_once_counterexample:
  "object_GetObject treeAsFileStore (hashOf 2) = Inr (Tree [])
   \<and> object_GetObject treeAsFileStore (hashOf 4) = Inr (Commit (hashOf 2) [])
   \<and> object_GetObject treeAsFileStore (hashOf 5) = Inr (Commit (hashOf 2) [hashOf 4])
   \<and> snd (walkAllRefs (newObjectWalker treeAsFileStore)) = None
   \<and> hashOf 4 \<in> set (fetched (walked treeAsFileStore))
   \<and> hashOf 5 \<in> set (fetched (walked treeAsFileStore))
   \<and> count_list (fetched (walked treeAsFileStore)) (hashOf 2) = 0"
proof -
  have a: "object_GetObject treeAsFileStore (hashOf 2) = Inr (Tree [])"
    and b: "object_GetObject treeAsFileStore (hashOf 4) = Inr (Commit (hashOf 2) [])"
    and c: "object_GetObject treeAsFileStore (hashOf 5) = Inr (Commit (hashOf 2) [hashOf 4])"
    by (simp_all add: object_GetObject_def treeAsFileStore_def)
  have d: "snd (walkAllRefs (newObjectWalker treeAsFileStore)) = None"
    by (simp add: walkAllRefs_treeAsFileStore)
  have e: "hashOf 4 \<in> set (fetched (walked treeAsFileStore))"
    and f: "hashOf 5 \<in> set (fetched (walked treeAsFileStore))"
    and g: "count_list (fetched (walked treeAsFileStore)) (hashOf 2) = 0"
    by (simp_all add: walked_def walkAllRefs_treeAsFileStore)
  show ?thesis by (intro conjI) (fact a, fact b, fact c, fact d, fact e, fact f, fact g)
qed

text \<open>
  Claim C1, amended. \<^verbatim>\<open>walkObjectTree\<close> returns at once, leaving the walker as it is, when
  the hash is seen; otherwise the hash is marked and is the next hash fetched. In the walk of
  a fresh walker over all references no hash is fetched twice and every fetched hash is
  marked. If that walk fetched a commit, the commit's tree is fetched exactly once, however
  many commits refer to it, provided no tree of the store lists the hash as a regular,
  executable or symlink entry (such an entry marks the hash without a fetch, and the tree may
  then never be fetched).
\<close>

theorem walk_fetches_each_object_once:
  "(isSeen p hash \<longrightarrow> walkObjectTree p hash = (p, None))
   \<and> (\<not> isSeen p hash \<longrightarrow>
        hash \<in> seen (fst (walkObjectTree p hash)) \<and>
        (\<exists>hs. fetched (fst (walkObjectTree p hash)) = fetched p @ hash # hs))
   \<and> distinct (fetched (walked s))
   \<and> set (fetched (walked s)) \<subseteq> seen (walked s)
   \<and> (\<forall>h. count_list (fetched (walked s)) h \<le> 1)
   \<and> (c \<in> set (fetched (walked s)) \<longrightarrow> object_GetObject s c = Inr (Commit t ps) \<longrightarrow>
        t \<notin> set (fileEntryHashes s) \<longrightarrow> count_list (fetched (walked s)) t = 1)"
proof (intro conjI impI allI)
  assume "isSeen p hash"
  then show "walkObjectTree p hash = (p, None)" by (rule walkObjectTree_seen)
next
  show "hash \<in> seen (fst (walkObjectTree p hash))" by (rule walkObjectTree_marks)
next
  assume "\<not> isSeen p hash"
  from walkObjectTree_unseen_grows[OF this]
  show "\<exists>hs. fetched (fst (walkObjectTree p hash)) = fetched p @ hash # hs"
    by (auto simp: grows_def fetch_def add_def)
next
  show d: "distinct (fetched (walked s))"
    using walked_fetched_once[of s] by (simp add: fetched_once_def)
  show "set (fetched (walked s)) \<subseteq> seen (walked s)"
    using walked_fetched_once[of s] by (simp add: fetched_once_def)
  show "count_list (fetched (walked s)) h \<le> 1" for h
    by (simp add: count_list_distinct[OF d])
  assume c: "c \<in> set (fetched (walked s))" and o: "object_GetObject s c = Inr (Commit t ps)"
    and f: "t \<notin> set (fileEntryHashes s)"
  have "t \<in> seen (walked s)" using c o by (rule walked_tree_of_commit)
  with walked_seen_fetched_or_file[of s] f have "t \<in> set (fetched (walked s))" by auto
  then show "count_list (fetched (walked s)) t = 1"
    by (simp add: count_list_distinct[OF d])
qed

text \<open>
  In \<open>twoCommitStore\<close> the commits \<open>hashOf 3\<close> and \<open>hashOf 4\<close> both have the tree
  \<open>hashOf 2\<close>; the walk fetches both commits and the tree once.
\<close>

theorem walk_fetches_each_object_once_witness:
  "isSeen (walked twoCommitStore) (hashOf 2)
   \<and> walkObjectTree (walked twoCommitStore) (hashOf 2) = (walked twoCommitStore, None)
   \<and> \<not> isSeen (newObjectWalker twoCommitStore) (hashOf 4)
   \<and> hashOf 4 \<in> seen (fst (walkObjectTree (newObjectWalker twoCommitStore) (hashOf 4)))
   \<and> (\<exists>hs. fetched (fst (walkObjectTree (newObjectWalker twoCommitStore) (hashOf 4)))
             = fetched (newObjectWalker twoCommitStore) @ hashOf 4 # hs)
   \<and> hashOf 3 \<in> set (fetched (walked twoCommitStore))
   \<and> hashOf 4 \<in> set (fetched (walked twoCommitStore))
   \<and> object_GetObject twoCommitStore (hashOf 3) = Inr (Commit (hashOf 2) [])
   \<and> object_GetObject twoCommitStore (hashOf 4) = Inr (Commit (hashOf 2) [hashOf 3])
   \<and> hashOf 2 \<notin> set (fileEntryHashes twoCommitStore)
   \<and> count_list (fetched (walked twoCommitStore)) (hashOf 2) = 1"
proof -
  have a: "isSeen (walked twoCommitStore) (hashOf 2)"
    by (simp add: walked_twoCommitStore isSeen_def)
  have b: "\<not> isSeen (newObjectWalker twoCommitStore) (hashOf 4)"
    by (simp add: newObjectWalker_def isSeen_def)
  have c3: "hashOf 3 \<in> set (fetched (walked twoCommitStore))"
    and c4: "hashOf 4 \<in> set (fetched (walked twoCommitStore))"
    by (simp_all add: walked_twoCommitStore)
  have o3: "object_GetObject twoCommitStore (hashOf 3) = Inr (Commit (hashOf 2) [])"
    and o4: "object_GetObject twoCommitStore (hashOf 4) = Inr (Commit (hashOf 2) [hashOf 3])"
    by (simp_all add: object_GetObject_def twoCommitStore_def)
  have f: "hashOf 2 \<notin> set (fileEntryHashes twoCommitStore)"
    by (simp add: fileEntryHashes_def twoCommitStore_def isFileMode_def)
  note t1 = walk_fetches_each_object_once
              [of "walked twoCommitStore" "hashOf 2" twoCommitStore "hashOf 3" "hashOf 2" "[]"]
  note t2 = walk_fetches_each_object_once
              [of "newObjectWalker twoCommitStore" "hashOf 4" twoCommitStore "hashOf 3" "hashOf 2" "[]"]
  from t1 a have r1: "walkObjectTree (walked twoCommitStore) (hashOf 2) = (walked twoCommitStore, None)"
    by blast
  from t2 b have r2: "hashOf 4 \<in> seen (fst (walkObjectTree (newObjectWalker twoCommitStore) (hashOf 4)))"
    and r3: "\<exists>hs. fetched (fst (walkObjectTree (newObjectWalker twoCommitStore) (hashOf 4)))
             = fetched (newObjectWalker twoCommitStore) @ hashOf 4 # hs"
    by blast+
  from t1 c3 o3 f have r4: "count_list (fetched (walked twoCommitStore)) (hashOf 2) = 1"
    by blast
  show ?thesis
    by (intro conjI) (fact a, fact r1, fact b, fact r2, fact r3, fact c3, fact c4, fact o3, fact o4, fact f, fact r4)
qed

subsection \<open>Walking to a blob\<close>

lemma walkObjectTree_Blob:
  "\<not> isSeen p hash \<Longrightarrow> object_GetObject (Storer p) hash = Inr Blob \<Longrightarrow>
     walkObjectTree p hash = (fetch (add p hash) hash, Some (UnknownObject hash))"
  by (simp add: walkObjectTree.simps)

lemma walkObjectTree_Tag:
  "\<not> isSeen p hash \<Longrightarrow> object_GetObject (Storer p) hash = Inr (Tag target) \<Longrightarrow>
     walkObjectTree p hash = walkObjectTree (fetch (add p hash) hash) target"
  by (simp add: walkObjectTree.simps)

lemma walked_ok_fetched_no_blob:
  assumes "snd (walkAllRefs (newObjectWalker s)) = None" and "x \<in> set (fetched (walked s))"
  shows "\<exists>obj. object_GetObject s x = Inr obj \<and> obj \<noteq> Blob"
  using walk_posts(2)[of "newObjectWalker s"
          "map RefHash (filter isHashReference (references s))"] assms
  by (simp add: walked_def walkAllRefs_eq walk_post_def) (auto simp: newObjectWalker_def)

text \<open>
  A blob, a tree listing it, a commit and an annotated tag of the blob; the branch
  \<^verbatim>\<open>main\<close> at the commit and a lightweight tag that points at the blob itself.
\<close>

definition blobTagStore :: Storer where
  "blobTagStore =
     \<lparr>objects =
        [(hashOf 1, Blob),
         (hashOf 2, Tree [\<lparr>Name = ''README.md'', Mode = Regular, Hash = hashOf 1\<rparr>]),
         (hashOf 3, Commit (hashOf 2) []),
         (hashOf 5, Tag (hashOf 1))],
      references =
        [NewHashReference ''refs/heads/main'' (hashOf 3),
         NewHashReference ''refs/tags/readme'' (hashOf 1)]\<rparr>"

lemma walkAllRefs_blobTagStore:
  "walkAllRefs (newObjectWalker blobTagStore) =
     (\<lparr>Storer = blobTagStore,
       seen = {hashOf 3, hashOf 2, hashOf 1},
       fetched = [hashOf 3, hashOf 2]\<rparr>, None)"
  by (simp add: walkAllRefs_def IterReferences_def newObjectWalker_def blobTagStore_def
        NewHashReference_def walkObjectTree.simps isSeen_def add_def
        fetch_def object_GetObject_def insert_commute)

text \<open>
  Claim C10, as stated, fails: in \<open>blobTagStore\<close> the reference \<^verbatim>\<open>refs/tags/readme\<close> is a
  direct-hash reference to a blob, and the walk over all references returns no error, because
  the tree entry has marked the blob before \<^verbatim>\<open>walkObjectTree\<close> is called on it.
\<close>

theorem walk_to_blob_counterexample:
  "object_GetObject blobTagStore (hashOf 1) = Inr Blob
   \<and> NewHashReference ''refs/tags/readme'' (hashOf 1) \<in> set (references blobTagStore)
   \<and> snd (walkAllRefs (newObjectWalker blobTagStore)) = None
   \<and> object_GetObject (Storer (walked blobTagStore)) (hashOf 1) = Inr Blob
   \<and> walkObjectTree (walked blobTagStore) (hashOf 1) = (walked blobTagStore, None)"
proof -
  have a: "object_GetObject blobTagStore (hashOf 1) = Inr Blob"
    by (simp add: object_GetObject_def blobTagStore_def)
  have b: "NewHashReference ''refs/tags/readme'' (hashOf 1) \<in> set (references blobTagStore)"
    by (simp add: blobTagStore_def)
  have c: "snd (walkAllRefs (newObjectWalker blobTagStore)) = None"
    by (simp add: walkAllRefs_blobTagStore)
  have s: "object_GetObject (Storer (walked blobTagStore)) (hashOf 1) = Inr Blob"
    using a by (simp add: walked_Storer)
  have "isSeen (walked blobTagStore) (hashOf 1)"
    by (simp add: walked_def walkAllRefs_blobTagStore isSeen_def)
  then have d: "walkObjectTree (walked blobTagStore) (hashOf 1) = (walked blobTagStore, None)"
    by (rule walkObjectTree_seen)
  show ?thesis by (intro conjI) (fact a, fact b, fact c, fact s, fact d)
qed

text \<open>
  Claim C10, amended. For a hash whose stored object is a blob: if the hash is not yet seen,
  \<^verbatim>\<open>walkObjectTree\<close> marks it, fetches it and fails with the unknown-object error, the loop
  over the references stops there with that error, and so does the walk of an unseen tag
  whose target the blob is; if the hash is already seen, \<^verbatim>\<open>walkObjectTree\<close> returns
  \<^verbatim>\<open>nil\<close> at once and the loop over the references goes on. When the walk of a fresh
  walker over all references returns no error, a blob in its seen-set was never fetched and is
  the hash of a regular, executable or symlink entry of a stored tree.
\<close>

theorem walk_to_blob:
  "(object_GetObject (Storer p) hash = Inr Blob \<longrightarrow>
      (\<not> isSeen p hash \<longrightarrow>
         walkObjectTree p hash = (fetch (add p hash) hash, Some (UnknownObject hash)) \<and>
         walkAllRefs_ForEach p (NewHashReference n hash # refs)
           = (fetch (add p hash) hash, Some (UnknownObject hash)) \<and>
         (\<not> isSeen p g \<longrightarrow> g \<noteq> hash \<longrightarrow> object_GetObject (Storer p) g = Inr (Tag hash) \<longrightarrow>
            walkObjectTree p g
              = (fetch (add (fetch (add p g) g) hash) hash, Some (UnknownObject hash)))) \<and>
      (isSeen p hash \<longrightarrow>
         walkObjectTree p hash = (p, None) \<and>
         walkAllRefs_ForEach p (NewHashReference n hash # refs) = walkAllRefs_ForEach p refs))
   \<and> (snd (walkAllRefs (newObjectWalker s)) = None \<longrightarrow> object_GetObject s b = Inr Blob \<longrightarrow>
        b \<in> seen (walked s) \<longrightarrow>
        b \<notin> set (fetched (walked s)) \<and> b \<in> set (fileEntryHashes s))"
proof (intro conjI impI)
  assume o: "object_GetObject (Storer p) hash = Inr Blob" and u: "\<not> isSeen p hash"
  show w: "walkObjectTree p hash = (fetch (add p hash) hash, Some (UnknownObject hash))"
    using u o by (rule walkObjectTree_Blob)
  show "walkAllRefs_ForEach p (NewHashReference n hash # refs)
          = (fetch (add p hash) hash, Some (UnknownObject hash))"
    by (simp add: NewHashReference_def w)
  assume g: "\<not> isSeen p g" "g \<noteq> hash" "object_GetObject (Storer p) g = Inr (Tag hash)"
  let ?p1 = "fetch (add p g) g"
  have "\<not> isSeen ?p1 hash" using u g(2) by (simp add: isSeen_def fetch_def add_def)
  moreover have "object_GetObject (Storer ?p1) hash = Inr Blob"
    using o by (simp add: fetch_def add_def)
  ultimately have "walkObjectTree ?p1 hash = (fetch (add ?p1 hash) hash, Some (UnknownObject hash))"
    by (rule walkObjectTree_Blob)
  then show "walkObjectTree p g
          = (fetch (add (fetch (add p g) g) hash) hash, Some (UnknownObject hash))"
    using walkObjectTree_Tag[OF g(1) g(3)] by simp
next
  assume "isSeen p hash"
  then show w: "walkObjectTree p hash = (p, None)" by (rule walkObjectTree_seen)
  show "walkAllRefs_ForEach p (NewHashReference n hash # refs) = walkAllRefs_ForEach p refs"
    by (simp add: NewHashReference_def w)
next
  assume ok: "snd (walkAllRefs (newObjectWalker s)) = None"
    and o: "object_GetObject s b = Inr Blob" and m: "b \<in> seen (walked s)"
  show nf: "b \<notin> set (fetched (walked s))"
    using walked_ok_fetched_no_blob[OF ok, of b] o by auto
  show "b \<in> set (fileEntryHashes s)"
    using walked_seen_fetched_or_file[of s] m nf by auto
qed

text \<open>
  In \<open>blobTagStore\<close>: a fresh walker fails on the blob \<open>hashOf 1\<close> and on the tag
  \<open>hashOf 5\<close>; after the walk over all references the blob is seen, and the call returns
  \<^verbatim>\<open>nil\<close>.
\<close>

theorem walk_to_blob_witness:
  "object_GetObject (Storer (newObjectWalker blobTagStore)) (hashOf 1) = Inr Blob
   \<and> \<not> isSeen (newObjectWalker blobTagStore) (hashOf 1)
   \<and> snd (walkObjectTree (newObjectWalker blobTagStore) (hashOf 1)) = Some (UnknownObject (hashOf 1))
   \<and> snd (walkAllRefs_ForEach (newObjectWalker blobTagStore)
        [NewHashReference ''refs/tags/readme'' (hashOf 1),
         NewHashReference ''refs/heads/main'' (hashOf 3)]) = Some (UnknownObject (hashOf 1))
   \<and> \<not> isSeen (newObjectWalker blobTagStore) (hashOf 5)
   \<and> object_GetObject (Storer (newObjectWalker blobTagStore)) (hashOf 5) = Inr (Tag (hashOf 1))
   \<and> snd (walkObjectTree (newObjectWalker blobTagStore) (hashOf 5)) = Some (UnknownObject (hashOf 1))
   \<and> object_GetObject (Storer (walked blobTagStore)) (hashOf 1) = Inr Blob
   \<and> isSeen (walked blobTagStore) (hashOf 1)
   \<and> walkObjectTree (walked blobTagStore) (hashOf 1) = (walked blobTagStore, None)
   \<and> snd (walkAllRefs (newObjectWalker blobTagStore)) = None
   \<and> hashOf 1 \<in> seen (walked blobTagStore)
   \<and> hashOf 1 \<notin> set (fetched (walked blobTagStore))
   \<and> hashOf 1 \<in> set (fileEntryHashes blobTagStore)"
proof -
  let ?p = "newObjectWalker blobTagStore"
  let ?q = "walked blobTagStore"
  have wq: "?q = \<lparr>Storer = blobTagStore, seen = {hashOf 3, hashOf 2, hashOf 1},
                  fetched = [hashOf 3, hashOf 2]\<rparr>"
    by (simp add: walked_def walkAllRefs_blobTagStore)
  have a1: "object_GetObject (Storer ?p) (hashOf 1) = Inr Blob"
    by (simp add: object_GetObject_def blobTagStore_def newObjectWalker_def)
  have a2: "\<not> isSeen ?p (hashOf 1)" by (simp add: isSeen_def newObjectWalker_def)
  have a3: "\<not> isSeen ?p (hashOf 5)" by (simp add: isSeen_def newObjectWalker_def)
  have a4: "object_GetObject (Storer ?p) (hashOf 5) = Inr (Tag (hashOf 1))"
    by (simp add: object_GetObject_def blobTagStore_def newObjectWalker_def)
  have a5: "hashOf 5 \<noteq> (hashOf 1 :: Hash)" by simp
  have b1: "object_GetObject (Storer ?q) (hashOf 1) = Inr Blob"
    by (simp add: walked_Storer) (simp add: object_GetObject_def blobTagStore_def)
  have b2: "isSeen ?q (hashOf 1)" unfolding wq by (simp add: isSeen_def)
  have c1: "snd (walkAllRefs ?p) = None" by (simp add: walkAllRefs_blobTagStore)
  have c2: "object_GetObject blobTagStore (hashOf 1) = Inr Blob"
    by (simp add: object_GetObject_def blobTagStore_def)
  have c3: "hashOf 1 \<in> seen ?q" unfolding wq by simp
  note t1 = walk_to_blob[of ?p "hashOf 1" "''refs/tags/readme''"
              "[NewHashReference ''refs/heads/main'' (hashOf 3)]" "hashOf 5" blobTagStore "hashOf 1"]
  note t2 = walk_to_blob[of ?q "hashOf 1" "''refs/tags/readme''" "[]" "hashOf 5" blobTagStore "hashOf 1"]
  from t1 a1 a2 have r1: "snd (walkObjectTree ?p (hashOf 1)) = Some (UnknownObject (hashOf 1))"
    by simp
  from t1 a1 a2 have r2: "snd (walkAllRefs_ForEach ?p
        [NewHashReference ''refs/tags/readme'' (hashOf 1),
         NewHashReference ''refs/heads/main'' (hashOf 3)]) = Some (UnknownObject (hashOf 1))"
    by simp
  from t1 a1 a2 a3 a4 a5
  have r3: "snd (walkObjectTree ?p (hashOf 5)) = Some (UnknownObject (hashOf 1))"
    by simp
  from t2 b1 b2 have r4: "walkObjectTree ?q (hashOf 1) = (?q, None)" by blast
  from t2 c1 c2 c3 have r5: "hashOf 1 \<notin> set (fetched ?q)"
    and r6: "hashOf 1 \<in> set (fileEntryHashes blobTagStore)" by blast+
  show ?thesis
    by (intro conjI) (fact a1, fact a2, fact r1, fact r2, fact a3, fact a4, fact r3,
        fact b1, fact b2, fact r4, fact c1, fact c3, fact r5, fact r6)
qed

subsection \<open>Tree entries by mode\<close>

lemma walkObjectTree_Tree:
  "\<not> isSeen p hash \<Longrightarrow> object_GetObject (Storer p) hash = Inr (Tree entries) \<Longrightarrow>
     walkObjectTree p hash = walkEntries (fetch (add p hash) hash) entries"
  by (simp add: walkObjectTree.simps)

lemma walkEntries_file:
  "isFileMode (Mode entry) \<Longrightarrow>
     walkEntries p (entry # entries) = walkEntries (add p (Hash entry)) entries"
  by (cases "Mode entry") (simp_all add: isFileMode_def)

lemma walkEntries_walked_marks:
  assumes "isWalkedMode (Mode entry)"
  shows "Hash entry \<in> seen (fst (walkEntries p (entry # entries)))"
proof -
  obtain p' r where w: "walkObjectTree p (Hash entry) = (p', r)" by (metis surj_pair)
  have m: "Hash entry \<in> seen p'" using walkObjectTree_marks[of "Hash entry" p] w by simp
  have e: "walkEntries p (entry # entries) =
             (case r of Some e \<Rightarrow> (p', Some e) | None \<Rightarrow> walkEntries p' entries)"
    using assms w by (cases "Mode entry") (simp_all add: isWalkedMode_def isFileMode_def)
  show ?thesis
  proof (cases r)
    case None
    with e m walk_grows(3)[of p' entries] show ?thesis by (auto simp: grows_def)
  next
    case (Some a)
    with e m show ?thesis by simp
  qed
qed

lemma walked_seen_within:
  "seen (walked s) \<subseteq> set (map RefHash (filter isHashReference (references s)))
                     \<union> set (referencedHashes s)"
  using seen_within[of "map RefHash (filter isHashReference (references s))"
          "set (map RefHash (filter isHashReference (references s)))" "newObjectWalker s"]
  by (simp add: walked_def walkAllRefs_eq) (simp add: newObjectWalker_def)

text \<open>
  A commit whose tree has a submodule entry \<^verbatim>\<open>lib\<close> and a directory \<^verbatim>\<open>src\<close>. The
  submodule is pinned at the commit \<open>hashOf 6\<close>, which the store holds as well. In
  \<open>submoduleStore\<close> only \<^verbatim>\<open>main\<close> exists; \<open>submoduleRefStore\<close> adds a branch at the
  pinned commit.
\<close>

definition submoduleStore :: Storer where
  "submoduleStore =
     \<lparr>objects =
        [(hashOf 2, Tree [\<lparr>Name = ''lib'', Mode = Submodule, Hash = hashOf 6\<rparr>,
                          \<lparr>Name = ''src'', Mode = Dir, Hash = hashOf 7\<rparr>]),
         (hashOf 7, Tree []),
         (hashOf 3, Commit (hashOf 2) []),
         (hashOf 6, Commit (hashOf 7) [])],
      references = [NewHashReference ''refs/heads/main'' (hashOf 3)]\<rparr>"

definition submoduleRefStore :: Storer where
  "submoduleRefStore =
     submoduleStore\<lparr>references :=
       references submoduleStore @ [NewHashReference ''refs/heads/lib'' (hashOf 6)]\<rparr>"

lemma walkAllRefs_submoduleStore:
  "walkAllRefs (newObjectWalker submoduleStore) =
     (\<lparr>Storer = submoduleStore,
       seen = {hashOf 3, hashOf 2, hashOf 7},
       fetched = [hashOf 3, hashOf 2, hashOf 7]\<rparr>, None)"
  by (simp add: walkAllRefs_def IterReferences_def newObjectWalker_def submoduleStore_def
        NewHashReference_def walkObjectTree.simps isSeen_def add_def
        fetch_def object_GetObject_def insert_commute)

lemma walkAllRefs_submoduleRefStore:
  "walkAllRefs (newObjectWalker submoduleRefStore) =
     (\<lparr>Storer = submoduleRefStore,
       seen = {hashOf 3, hashOf 2, hashOf 7, hashOf 6},
       fetched = [hashOf 3, hashOf 2, hashOf 7, hashOf 6]\<rparr>, None)"
  by (simp add: walkAllRefs_def IterReferences_def newObjectWalker_def submoduleRefStore_def
        submoduleStore_def
        NewHashReference_def walkObjectTree.simps isSeen_def add_def
        fetch_def object_GetObject_def insert_commute)

text \<open>
  Claim C2, as stated, fails in its second part: in \<open>submoduleRefStore\<close> the hash
  \<open>hashOf 6\<close> is the hash of a submodule entry of the walked tree \<open>hashOf 2\<close>, and it is in
  the seen-set of the walk, which reaches it as the root of \<^verbatim>\<open>refs/heads/lib\<close>.
\<close>

theorem tree_entries_by_mode_counterexample:
  "object_GetObject submoduleRefStore (hashOf 2)
     = Inr (Tree [\<lparr>Name = ''lib'', Mode = Submodule, Hash = hashOf 6\<rparr>,
                  \<lparr>Name = ''src'', Mode = Dir, Hash = hashOf 7\<rparr>])
   \<and> hashOf 2 \<in> set (fetched (walked submoduleRefStore))
   \<and> snd (walkAllRefs (newObjectWalker submoduleRefStore)) = None
   \<and> hashOf 6 \<in> seen (walked submoduleRefStore)"
  by (simp add: walked_def walkAllRefs_submoduleRefStore)
     (simp add: object_GetObject_def submoduleRefStore_def submoduleStore_def)

text \<open>
  Claim C2, amended. When \<^verbatim>\<open>walkObjectTree\<close> processes a tree (an unseen hash whose
  object is a tree) it runs the loop over the entries on the walker that has marked and
  fetched the tree. In that loop an entry with regular, executable or symlink mode adds its
  hash to the seen-set and goes on with the next entry: nothing is fetched and
  \<^verbatim>\<open>walkObjectTree\<close> is not called. An entry with submodule mode goes on with the next
  entry on the unchanged walker. An entry with directory mode calls \<^verbatim>\<open>walkObjectTree\<close> on
  its hash, returns its error if there is one and goes on from its walker otherwise; its hash
  is in the seen-set afterwards. The submodule entry adds nothing: a hash that is no root of
  the walk and that the stored objects refer to in submodule entries only is not in the
  reachable set.
\<close>

theorem tree_entries_by_mode:
  "(\<not> isSeen p hash \<longrightarrow> object_GetObject (Storer p) hash = Inr (Tree ents) \<longrightarrow>
      walkObjectTree p hash = walkEntries (fetch (add p hash) hash) ents)
   \<and> (Mode entry = Regular \<or> Mode entry = Executable \<or> Mode entry = Symlink \<longrightarrow>
        walkEntries p (entry # entries) = walkEntries (add p (Hash entry)) entries \<and>
        seen (add p (Hash entry)) = insert (Hash entry) (seen p) \<and>
        fetched (add p (Hash entry)) = fetched p)
   \<and> (Mode entry = Submodule \<longrightarrow> walkEntries p (entry # entries) = walkEntries p entries)
   \<and> (Mode entry = Dir \<longrightarrow>
        walkEntries p (entry # entries) =
          (case walkObjectTree p (Hash entry) of
             (p', Some e) \<Rightarrow> (p', Some e)
           | (p', None) \<Rightarrow> walkEntries p' entries) \<and>
        Hash entry \<in> seen (fst (walkEntries p (entry # entries))))
   \<and> (h \<notin> set (map RefHash (filter isHashReference (references s))) \<longrightarrow>
        h \<notin> set (referencedHashes s) \<longrightarrow> h \<notin> seen (walked s))"
proof (intro conjI impI)
  assume "\<not> isSeen p hash" "object_GetObject (Storer p) hash = Inr (Tree ents)"
  then show "walkObjectTree p hash = walkEntries (fetch (add p hash) hash) ents"
    by (rule walkObjectTree_Tree)
next
  assume "Mode entry = Regular \<or> Mode entry = Executable \<or> Mode entry = Symlink"
  then have "isFileMode (Mode entry)" by (auto simp: isFileMode_def)
  then show "walkEntries p (entry # entries) = walkEntries (add p (Hash entry)) entries"
    by (rule walkEntries_file)
  show "seen (add p (Hash entry)) = insert (Hash entry) (seen p)" by (simp add: add_def)
  show "fetched (add p (Hash entry)) = fetched p" by (simp add: add_def)
next
  assume "Mode entry = Submodule"
  then show "walkEntries p (entry # entries) = walkEntries p entries" by simp
next
  assume d: "Mode entry = Dir"
  then show "walkEntries p (entry # entries) =
          (case walkObjectTree p (Hash entry) of
             (p', Some e) \<Rightarrow> (p', Some e)
           | (p', None) \<Rightarrow> walkEntries p' entries)" by simp
  from d have "isWalkedMode (Mode entry)" by (simp add: isWalkedMode_def isFileMode_def)
  then show "Hash entry \<in> seen (fst (walkEntries p (entry # entries)))"
    by (rule walkEntries_walked_marks)
next
  assume "h \<notin> set (map RefHash (filter isHashReference (references s)))"
    and "h \<notin> set (referencedHashes s)"
  with walked_seen_within[of s] show "h \<notin> seen (walked s)" by blast
qed

text \<open>
  In \<open>submoduleStore\<close>: the tree \<open>hashOf 2\<close> is unseen by a fresh walker; its submodule
  entry is skipped and its directory entry is walked, so that the walk of the entries leaves
  \<open>hashOf 7\<close> seen and \<open>hashOf 6\<close> unseen; a regular entry is added without a fetch; and
  \<open>hashOf 6\<close>, which only the submodule entry names, is not in the reachable set.
\<close>

theorem tree_entries_by_mode_witness:
  "\<not> isSeen (newObjectWalker submoduleStore) (hashOf 2)
   \<and> object_GetObject (Storer (newObjectWalker submoduleStore)) (hashOf 2)
       = Inr (Tree [\<lparr>Name = ''lib'', Mode = Submodule, Hash = hashOf 6\<rparr>,
                    \<lparr>Name = ''src'', Mode = Dir, Hash = hashOf 7\<rparr>])
   \<and> walkObjectTree (newObjectWalker submoduleStore) (hashOf 2)
       = walkEntries (fetch (add (newObjectWalker submoduleStore) (hashOf 2)) (hashOf 2))
           [\<lparr>Name = ''lib'', Mode = Submodule, Hash = hashOf 6\<rparr>,
            \<lparr>Name = ''src'', Mode = Dir, Hash = hashOf 7\<rparr>]
   \<and> Mode \<lparr>Name = ''README.md'', Mode = Regular, Hash = hashOf 1\<rparr> = Regular
   \<and> walkEntries (newObjectWalker submoduleStore)
         [\<lparr>Name = ''README.md'', Mode = Regular, Hash = hashOf 1\<rparr>]
       = (add (newObjectWalker submoduleStore) (hashOf 1), None)
   \<and> fetched (add (newObjectWalker submoduleStore) (hashOf 1)) = []
   \<and> Mode \<lparr>Name = ''lib'', Mode = Submodule, Hash = hashOf 6\<rparr> = Submodule
   \<and> walkEntries (newObjectWalker submoduleStore)
         [\<lparr>Name = ''lib'', Mode = Submodule, Hash = hashOf 6\<rparr>]
       = (newObjectWalker submoduleStore, None)
   \<and> Mode \<lparr>Name = ''src'', Mode = Dir, Hash = hashOf 7\<rparr> = Dir
   \<and> hashOf 7 \<in> seen (fst (walkEntries (newObjectWalker submoduleStore)
                               [\<lparr>Name = ''src'', Mode = Dir, Hash = hashOf 7\<rparr>]))
   \<and> hashOf 6 \<notin> set (map RefHash (filter isHashReference (references submoduleStore)))
   \<and> hashOf 6 \<notin> set (referencedHashes submoduleStore)
   \<and> hashOf 6 \<notin> seen (walked submoduleStore)"
proof -
  let ?p = "newObjectWalker submoduleStore"
  let ?lib = "\<lparr>Name = ''lib'', Mode = Submodule, Hash = hashOf 6\<rparr>"
  let ?src = "\<lparr>Name = ''src'', Mode = Dir, Hash = hashOf 7\<rparr>"
  let ?readme = "\<lparr>Name = ''README.md'', Mode = Regular, Hash = hashOf 1\<rparr>"
  have a1: "\<not> isSeen ?p (hashOf 2)" by (simp add: isSeen_def newObjectWalker_def)
  have a2: "object_GetObject (Storer ?p) (hashOf 2) = Inr (Tree [?lib, ?src])"
    by (simp add: object_GetObject_def submoduleStore_def newObjectWalker_def)
  have m1: "Mode ?readme = Regular" and m2: "Mode ?lib = Submodule" and m3: "Mode ?src = Dir"
    by simp_all
  have g1: "hashOf 6 \<notin> set (map RefHash (filter isHashReference (references submoduleStore)))"
    by (simp add: submoduleStore_def NewHashReference_def isHashReference_def)
  have g2: "hashOf 6 \<notin> set (referencedHashes submoduleStore)"
    by (simp add: referencedHashes_def submoduleStore_def)
  note t1 = tree_entries_by_mode[of ?p "hashOf 2" "[?lib, ?src]" ?readme "[]" "hashOf 6" submoduleStore]
  note t2 = tree_entries_by_mode[of ?p "hashOf 2" "[?lib, ?src]" ?lib "[]" "hashOf 6" submoduleStore]
  note t3 = tree_entries_by_mode[of ?p "hashOf 2" "[?lib, ?src]" ?src "[]" "hashOf 6" submoduleStore]
  from t1 a1 a2 have r1: "walkObjectTree ?p (hashOf 2)
       = walkEntries (fetch (add ?p (hashOf 2)) (hashOf 2)) [?lib, ?src]" by blast
  from t1 m1 have "walkEntries ?p [?readme] = walkEntries (add ?p (Hash ?readme)) []"
    and "fetched (add ?p (Hash ?readme)) = fetched ?p" by blast+
  then have r2: "walkEntries ?p [?readme] = (add ?p (hashOf 1), None)"
    and r3: "fetched (add ?p (hashOf 1)) = []" by (simp_all add: newObjectWalker_def)
  from t2 m2 have "walkEntries ?p [?lib] = walkEntries ?p []" by blast
  then have r4: "walkEntries ?p [?lib] = (?p, None)" by simp
  from t3 m3 have "Hash ?src \<in> seen (fst (walkEntries ?p [?src]))" by blast
  then have r5: "hashOf 7 \<in> seen (fst (walkEntries ?p [?src]))" by simp
  from t1 g1 g2 have r6: "hashOf 6 \<notin> seen (walked submoduleStore)" by blast
  show ?thesis
    by (intro conjI) (fact a1, fact a2, fact r1, fact m1, fact r2, fact r3, fact m2, fact r4,
        fact m3, fact r5, fact g1, fact g2, fact r6)
qed

subsection \<open>Resolving symbolic references\<close>

text \<open>
  \<^verbatim>\<open>Repository.Reference(name, true)\<close> is library code (go-git's
  \<^verbatim>\<open>storer.ResolveReference\<close>): it looks the name up and follows symbolic references by
  their target names, giving up after \<open>MaxResolveRecursion\<close> steps or at a name that the
  store does not hold.
\<close>

definition MaxResolveRecursion :: nat where
  "MaxResolveRecursion = 1024"

definition Storer_Reference :: "Storer \<Rightarrow> string \<Rightarrow> error + Reference" where
  "Storer_Reference s name =
     (case find (\<lambda>r. RefName r = name) (references s) of
        None \<Rightarrow> Inl (ReferenceNotFound name)
      | Some r \<Rightarrow> Inr r)"

function resolveReference :: "Storer \<Rightarrow> Reference \<Rightarrow> nat \<Rightarrow> error + Reference" where
  "resolveReference s r recursion =
     (if RefType r \<noteq> SymbolicReference then Inr r
      else if recursion > MaxResolveRecursion then Inl ErrMaxResolveRecursion
      else case Storer_Reference s (RefTarget r) of
             Inl e \<Rightarrow> Inl e
           | Inr t \<Rightarrow> resolveReference s t (recursion + 1))"
  by pat_completeness auto

termination resolveReference
  by (relation "measure (\<lambda>(s, r, recursion). Suc MaxResolveRecursion - recursion)") auto

declare resolveReference.simps [simp del]

definition ResolveReference :: "Storer \<Rightarrow> string \<Rightarrow> error + Reference" where
  "ResolveReference s n =
     (case Storer_Reference s n of
        Inl e \<Rightarrow> Inl e
      | Inr r \<Rightarrow> resolveReference s r 0)"

text \<open>
  The walk over all references as the specification words it: every reference is resolved,
  a symbolic reference that does not resolve is skipped, and \<^verbatim>\<open>walkObjectTree\<close> is called
  on the hash of each resulting direct-hash reference. It is compared with \<open>walkAllRefs\<close>
  below.
\<close>

fun walkAllRefs_resolving_ForEach ::
  "objectWalker \<Rightarrow> Reference list \<Rightarrow> objectWalker \<times> error option" where
  "walkAllRefs_resolving_ForEach p [] = (p, None)"
| "walkAllRefs_resolving_ForEach p (ref # refs) =
     (case (if RefType ref = SymbolicReference then ResolveReference (Storer p) (RefName ref)
            else Inr ref) of
        Inl e \<Rightarrow> walkAllRefs_resolving_ForEach p refs
      | Inr resolved \<Rightarrow>
          if RefType resolved \<noteq> HashReference then walkAllRefs_resolving_ForEach p refs
          else case walkObjectTree p (RefHash resolved) of
                 (p', Some e) \<Rightarrow> (p', Some e)
               | (p', None) \<Rightarrow> walkAllRefs_resolving_ForEach p' refs)"

definition walkAllRefs_resolving :: "objectWalker \<Rightarrow> objectWalker \<times> error option" where
  "walkAllRefs_resolving p = walkAllRefs_resolving_ForEach p (references (Storer p))"

lemma Storer_Reference_in: "Storer_Reference s n = Inr r \<Longrightarrow> r \<in> set (references s)"
  by (auto simp: Storer_Reference_def find_Some_iff split: option.splits)

lemma resolveReference_in:
  "resolveReference s r k = Inr r' \<Longrightarrow> r' = r \<or> r' \<in> set (references s)"
proof (induction s r k rule: resolveReference.induct)
  case (1 s r recursion)
  show ?case
  proof (cases "RefType r \<noteq> SymbolicReference")
    case True
    with 1(2) show ?thesis by (subst (asm) resolveReference.simps) simp
  next
    case False
    have u: "resolveReference s r recursion =
               (if recursion > MaxResolveRecursion then Inl ErrMaxResolveRecursion
                else case Storer_Reference s (RefTarget r) of
                       Inl e \<Rightarrow> Inl e
                     | Inr t \<Rightarrow> resolveReference s t (recursion + 1))"
      using False by (subst resolveReference.simps) simp
    from 1(2) have k: "\<not> recursion > MaxResolveRecursion"
      unfolding u by (simp split: if_splits)
    from 1(2) k obtain t where t: "Storer_Reference s (RefTarget r) = Inr t"
      and r: "resolveReference s t (recursion + 1) = Inr r'"
      unfolding u by (auto split: sum.splits)
    from 1(1)[OF _ k t r] False have "r' = t \<or> r' \<in> set (references s)" by simp
    with Storer_Reference_in[OF t] show ?thesis by auto
  qed
qed

lemma ResolveReference_in: "ResolveReference s n = Inr r \<Longrightarrow> r \<in> set (references s)"
  by (auto simp: ResolveReference_def split: sum.splits
           dest: Storer_Reference_in resolveReference_in)

text \<open>
  \<^verbatim>\<open>HEAD\<close> is iterated first and resolves to \<^verbatim>\<open>main\<close>; the next reference points at an
  object that the store does not hold.
\<close>

definition headFirstStore :: Storer where
  "headFirstStore =
     \<lparr>objects = [(hashOf 2, Tree []), (hashOf 3, Commit (hashOf 2) [])],
      references =
        [NewSymbolicReference ''HEAD'' ''refs/heads/main'',
         NewHashReference ''refs/heads/broken'' (hashOf 9),
         NewHashReference ''refs/heads/main'' (hashOf 3)]\<rparr>"

lemma ResolveReference_headFirstStore:
  "ResolveReference headFirstStore ''HEAD'' = Inr (NewHashReference ''refs/heads/main'' (hashOf 3))"
  by (simp add: ResolveReference_def Storer_Reference_def headFirstStore_def
        NewSymbolicReference_def NewHashReference_def resolveReference.simps
        MaxResolveRecursion_def)

lemma walkAllRefs_headFirstStore:
  "walkAllRefs (newObjectWalker headFirstStore) =
     (\<lparr>Storer = headFirstStore, seen = {hashOf 9}, fetched = [hashOf 9]\<rparr>,
      Some (GetObjectFailed (hashOf 9)))"
  by (simp add: walkAllRefs_def IterReferences_def newObjectWalker_def headFirstStore_def
        NewHashReference_def NewSymbolicReference_def walkObjectTree.simps isSeen_def add_def
        fetch_def object_GetObject_def)

lemma walkAllRefs_resolving_headFirstStore:
  "walkAllRefs_resolving (newObjectWalker headFirstStore) =
     (\<lparr>Storer = headFirstStore, seen = {hashOf 9, hashOf 2, hashOf 3},
       fetched = [hashOf 3, hashOf 2, hashOf 9]\<rparr>,
      Some (GetObjectFailed (hashOf 9)))"
  using ResolveReference_headFirstStore
  by (simp add: walkAllRefs_resolving_def newObjectWalker_def)
     (simp add: headFirstStore_def
        NewHashReference_def NewSymbolicReference_def walkObjectTree.simps isSeen_def add_def
        fetch_def object_GetObject_def insert_commute)

text \<open>
  Claim C3, as stated, fails: \<open>walkAllRefs\<close> resolves nothing. In \<open>headFirstStore\<close> the
  symbolic reference \<^verbatim>\<open>HEAD\<close> comes first and resolves to the hash \<open>hashOf 3\<close>, yet
  \<^verbatim>\<open>walkObjectTree\<close> is not called on that hash: the walk stops at the broken reference
  with \<open>hashOf 3\<close> neither seen nor fetched, where the walk that resolves references has
  walked it.
\<close>

theorem walkAllRefs_skips_symbolic_counterexample:
  "hd (references headFirstStore) = NewSymbolicReference ''HEAD'' ''refs/heads/main''
   \<and> ResolveReference headFirstStore ''HEAD''
       = Inr (NewHashReference ''refs/heads/main'' (hashOf 3))
   \<and> hashOf 3 \<notin> seen (fst (walkAllRefs (newObjectWalker headFirstStore)))
   \<and> hashOf 3 \<notin> set (fetched (fst (walkAllRefs (newObjectWalker headFirstStore))))
   \<and> hashOf 3 \<in> seen (fst (walkAllRefs_resolving (newObjectWalker headFirstStore)))
   \<and> walkAllRefs (newObjectWalker headFirstStore)
       \<noteq> walkAllRefs_resolving (newObjectWalker headFirstStore)"
proof -
  have a: "hd (references headFirstStore) = NewSymbolicReference ''HEAD'' ''refs/heads/main''"
    by (simp add: headFirstStore_def)
  have b: "hashOf 3 \<notin> seen (fst (walkAllRefs (newObjectWalker headFirstStore)))"
    and c: "hashOf 3 \<notin> set (fetched (fst (walkAllRefs (newObjectWalker headFirstStore))))"
    by (simp_all add: walkAllRefs_headFirstStore)
  have d: "hashOf 3 \<in> seen (fst (walkAllRefs_resolving (newObjectWalker headFirstStore)))"
    by (simp add: walkAllRefs_resolving_headFirstStore)
  from b d have e: "walkAllRefs (newObjectWalker headFirstStore)
       \<noteq> walkAllRefs_resolving (newObjectWalker headFirstStore)"
    by metis
  show ?thesis
    by (intro conjI) (fact a, fact ResolveReference_headFirstStore, fact b, fact c, fact d, fact e)
qed

text \<open>
  Claim C3, amended. \<open>walkAllRefs\<close> iterates over the references of the store in order.
  A reference that is not a direct-hash reference is skipped: a symbolic reference is not
  resolved, whether it would resolve or not. For a direct-hash reference \<^verbatim>\<open>walkObjectTree\<close>
  is called on its hash, and the first error ends the walk. So the walk is the walk of the
  hashes of the direct-hash references, in order. A resolvable symbolic reference adds no
  root of its own: when the walk returns no error, the hash it resolves to is in the seen-set
  as the root of the direct-hash reference it resolves to.
\<close>

theorem walkAllRefs_skips_symbolic:
  "walkAllRefs p
     = walkParentHashes p (map RefHash (filter isHashReference (references (Storer p))))
   \<and> (RefType ref \<noteq> HashReference \<longrightarrow>
        walkAllRefs_ForEach p (ref # refs) = walkAllRefs_ForEach p refs)
   \<and> (RefType ref = HashReference \<longrightarrow>
        walkAllRefs_ForEach p (ref # refs) =
          (case walkObjectTree p (RefHash ref) of
             (p', Some e) \<Rightarrow> (p', Some e)
           | (p', None) \<Rightarrow> walkAllRefs_ForEach p' refs))
   \<and> (snd (walkAllRefs p) = None \<longrightarrow> ResolveReference (Storer p) n = Inr r \<longrightarrow>
        RefType r = HashReference \<longrightarrow> RefHash r \<in> seen (fst (walkAllRefs p)))"
proof (intro conjI impI)
  show "walkAllRefs p
     = walkParentHashes p (map RefHash (filter isHashReference (references (Storer p))))"
    by (rule walkAllRefs_eq)
next
  assume "RefType ref \<noteq> HashReference"
  then show "walkAllRefs_ForEach p (ref # refs) = walkAllRefs_ForEach p refs" by simp
next
  assume "RefType ref = HashReference"
  then show "walkAllRefs_ForEach p (ref # refs) =
          (case walkObjectTree p (RefHash ref) of
             (p', Some e) \<Rightarrow> (p', Some e)
           | (p', None) \<Rightarrow> walkAllRefs_ForEach p' refs)" by simp
next
  let ?hs = "map RefHash (filter isHashReference (references (Storer p)))"
  assume ok: "snd (walkAllRefs p) = None" and res: "ResolveReference (Storer p) n = Inr r"
    and h: "RefType r = HashReference"
  from res have "r \<in> set (references (Storer p))" by (rule ResolveReference_in)
  with h have "RefHash r \<in> set ?hs" by (auto simp: isHashReference_def)
  moreover from ok have "set ?hs \<subseteq> seen (fst (walkParentHashes p ?hs))"
    by (intro walkParentHashes_marks) (simp add: walkAllRefs_eq)
  ultimately show "RefHash r \<in> seen (fst (walkAllRefs p))"
    by (auto simp: walkAllRefs_eq)
qed

text \<open>
  In \<open>twoCommitStore\<close> the symbolic \<^verbatim>\<open>HEAD\<close> is skipped and the branch \<^verbatim>\<open>main\<close> it
  resolves to is walked, which puts the resolved hash \<open>hashOf 4\<close> into the seen-set.
\<close>

theorem walkAllRefs_skips_symbolic_witness:
  "RefType (NewSymbolicReference ''HEAD'' ''refs/heads/main'') \<noteq> HashReference
   \<and> walkAllRefs_ForEach (newObjectWalker twoCommitStore)
        [NewSymbolicReference ''HEAD'' ''refs/heads/main'',
         NewHashReference ''refs/heads/main'' (hashOf 4)]
      = walkAllRefs_ForEach (newObjectWalker twoCommitStore)
          [NewHashReference ''refs/heads/main'' (hashOf 4)]
   \<and> RefType (NewHashReference ''refs/heads/main'' (hashOf 4)) = HashReference
   \<and> walkAllRefs_ForEach (newObjectWalker twoCommitStore)
        [NewHashReference ''refs/heads/main'' (hashOf 4)]
      = (case walkObjectTree (newObjectWalker twoCommitStore) (hashOf 4) of
           (p', Some e) \<Rightarrow> (p', Some e)
         | (p', None) \<Rightarrow> (p', None))
   \<and> snd (walkAllRefs (newObjectWalker twoCommitStore)) = None
   \<and> ResolveReference (Storer (newObjectWalker twoCommitStore)) ''HEAD''
       = Inr (NewHashReference ''refs/heads/main'' (hashOf 4))
   \<and> hashOf 4 \<in> seen (fst (walkAllRefs (newObjectWalker twoCommitStore)))"
proof -
  let ?p = "newObjectWalker twoCommitStore"
  let ?head = "NewSymbolicReference ''HEAD'' ''refs/heads/main''"
  let ?main = "NewHashReference ''refs/heads/main'' (hashOf 4)"
  have a: "RefType ?head \<noteq> HashReference" by (simp add: NewSymbolicReference_def)
  have b: "RefType ?main = HashReference" by (simp add: NewHashReference_def)
  have c: "snd (walkAllRefs ?p) = None" by (simp add: walkAllRefs_twoCommitStore)
  have d: "ResolveReference (Storer ?p) ''HEAD'' = Inr ?main"
    by (simp add: ResolveReference_def Storer_Reference_def twoCommitStore_def
          newObjectWalker_def NewSymbolicReference_def NewHashReference_def
          resolveReference.simps MaxResolveRecursion_def)
  note t1 = walkAllRefs_skips_symbolic[of ?p ?head "[?main]" "''HEAD''" ?main]
  note t2 = walkAllRefs_skips_symbolic[of ?p ?main "[]" "''HEAD''" ?main]
  from t1 a have r1: "walkAllRefs_ForEach ?p [?head, ?main] = walkAllRefs_ForEach ?p [?main]"
    by blast
  from t2 b have "walkAllRefs_ForEach ?p [?main]
      = (case walkObjectTree ?p (RefHash ?main) of
           (p', Some e) \<Rightarrow> (p', Some e)
         | (p', None) \<Rightarrow> walkAllRefs_ForEach p' [])"
    by blast
  then have r2: "walkAllRefs_ForEach ?p [?main]
      = (case walkObjectTree ?p (hashOf 4) of
           (p', Some e) \<Rightarrow> (p', Some e)
         | (p', None) \<Rightarrow> (p', None))"
    by (simp add: NewHashReference_def)
  from t1 c d b have "RefHash ?main \<in> seen (fst (walkAllRefs ?p))" by blast
  then have r3: "hashOf 4 \<in> seen (fst (walkAllRefs ?p))" by (simp add: NewHashReference_def)
  show ?thesis
    by (intro conjI) (fact a, fact r1, fact b, fact r2, fact c, fact d, fact r3)
qed

subsection \<open>Packet lines: encoding and decoding\<close>

text \<open>
  The value of a hexadecimal digit, as Go's \<^verbatim>\<open>encoding/hex\<close> reads it (both cases), and of a
  string of digits.
\<close>

definition fromHexChar :: "char \<Rightarrow> nat option" where
  "fromHexChar c =
     (let n = (of_char c :: nat) in
      if 48 \<le> n \<and> n \<le> 57 then Some (n - 48)
      else if 97 \<le> n \<and> n \<le> 102 then Some (n - 97 + 10)
      else if 65 \<le> n \<and> n \<le> 70 then Some (n - 65 + 10)
      else None)"

definition hexValue :: "string \<Rightarrow> nat option" where
  "hexValue s =
     foldl (\<lambda>acc c. case acc of
                       None \<Rightarrow> None
                     | Some a \<Rightarrow> (case fromHexChar c of None \<Rightarrow> None | Some d \<Rightarrow> Some (16 * a + d)))
           (Some 0) s"

text \<open>
  Modelled from the spec: the packet-line decoder of section 4.1 (the repository decodes with
  go-git's \<^verbatim>\<open>pktline.Scanner\<close>, which is not under src/). It reads a prefix of four
  hexadecimal digits; the prefix \<^verbatim>\<open>0000\<close> is the end-of-section marker; otherwise it reads
  exactly prefix minus four more bytes as the line. A prefix that is not hexadecimal or is
  below four, and a truncated body, are framing errors. The result carries the bytes that
  follow the packet.
\<close>

datatype packet = PktLine string | PktFlush

definition decodePktLine :: "string \<Rightarrow> error + (packet \<times> string)" where
  "decodePktLine bs =
     (if length bs < 4 then Inl FramingError
      else case hexValue (take 4 bs) of
        None \<Rightarrow> Inl FramingError
      | Some n \<Rightarrow>
          if n = 0 then Inr (PktFlush, drop 4 bs)
          else if n < 4 then Inl FramingError
          else if length bs < n then Inl FramingError
          else Inr (PktLine (take (n - 4) (drop 4 bs)), drop n bs))"

lemma fromHexChar_hexDigit: "d < 16 \<Longrightarrow> fromHexChar (hexDigit d) = Some d"
proof -
  assume "d < 16"
  then have "d = 0 \<or> d = 1 \<or> d = 2 \<or> d = 3 \<or> d = 4 \<or> d = 5 \<or> d = 6 \<or> d = 7 \<or> d = 8
             \<or> d = 9 \<or> d = 10 \<or> d = 11 \<or> d = 12 \<or> d = 13 \<or> d = 14 \<or> d = 15"
    by arith
  then show ?thesis
    by (elim disjE) (simp_all add: hexDigit_def fromHexChar_def Let_def nth_Cons')
qed

lemma hexValue_snoc:
  "hexValue (s @ [c]) =
     (case hexValue s of
        None \<Rightarrow> None
      | Some a \<Rightarrow> (case fromHexChar c of None \<Rightarrow> None | Some d \<Rightarrow> Some (16 * a + d)))"
  by (simp add: hexValue_def)

lemma hexValue_hexDigits: "hexValue (hexDigits n) = Some n"
proof (induction n rule: hexDigits.induct)
  case (1 n)
  show ?case
  proof (cases "n < 16")
    case True
    then have "fromHexChar (hexDigit n) = Some n" by (rule fromHexChar_hexDigit)
    with True show ?thesis
      by (simp add: hexDigits.simps[of n] hexValue_def)
  next
    case False
    with 1 have "hexValue (hexDigits (n div 16)) = Some (n div 16)" by simp
    with False show ?thesis
      by (simp add: hexDigits.simps[of n] hexValue_snoc fromHexChar_hexDigit)
  qed
qed

lemma hexValue_zeros: "hexValue (replicate k (CHR ''0'') @ s) = hexValue s"
proof (induction k)
  case 0
  show ?case by simp
next
  case (Suc k)
  have "fromHexChar (CHR ''0'') = Some 0" by (simp add: fromHexChar_def)
  then have "hexValue (CHR ''0'' # t) = hexValue t" for t
    by (simp add: hexValue_def)
  with Suc show ?case by simp
qed

lemma hexValue_Sprintf_04x: "hexValue (Sprintf_04x n) = Some n"
  by (simp add: Sprintf_04x_def hexValue_zeros hexValue_hexDigits)

lemma length_hexDigits: "0 < k \<Longrightarrow> n < 16 ^ k \<Longrightarrow> length (hexDigits n) \<le> k"
proof (induction n arbitrary: k rule: hexDigits.induct)
  case (1 n)
  show ?case
  proof (cases "n < 16")
    case True
    with 1(2) show ?thesis by (simp add: hexDigits.simps[of n])
  next
    case False
    with 1(3) have "k \<noteq> 1" by auto
    with 1(2) obtain k' where k: "k = Suc k'" "0 < k'" by (cases k) auto
    with 1(3) have "n div 16 < 16 ^ k'" by (simp add: less_mult_imp_div_less mult.commute)
    from 1(1)[OF False k(2) this] False k show ?thesis by (simp add: hexDigits.simps[of n])
  qed
qed

lemma length_Sprintf_04x: "n < 65536 \<Longrightarrow> length (Sprintf_04x n) = 4"
  using length_hexDigits[of 4 n] by (simp add: Sprintf_04x_def)

lemma WriteLine_memWriter:
  "err pw = None \<Longrightarrow>
     WriteLine memWriter pw s = pw\<lparr>w := w pw @ Sprintf_04x (4 + length s + 1) @ s @ [CHR 0x0A]\<rparr>"
  by (simp add: WriteLine_def memWriter_def Let_def)

lemma decodePktLine_encoded:
  assumes "length s \<le> 65530"
  shows "decodePktLine (Sprintf_04x (4 + length s + 1) @ s @ [CHR 0x0A] @ rest)
           = Inr (PktLine (s @ [CHR 0x0A]), rest)"
proof -
  let ?n = "4 + length s + 1"
  have l: "length (Sprintf_04x ?n) = 4" using assms by (intro length_Sprintf_04x) simp
  have v: "hexValue (Sprintf_04x ?n) = Some ?n" by (rule hexValue_Sprintf_04x)
  have t: "take 4 (Sprintf_04x ?n @ s @ [CHR 0x0A] @ rest) = Sprintf_04x ?n" using l by simp
  have d: "drop 4 (Sprintf_04x ?n @ s @ [CHR 0x0A] @ rest) = s @ [CHR 0x0A] @ rest"
    using l by simp
  have d': "drop ?n (Sprintf_04x ?n @ s @ [CHR 0x0A] @ rest) = rest"
    using l by simp
  show ?thesis
    unfolding decodePktLine_def t d d' v using l by simp
qed

text \<open>
  Claim C4, as stated, fails. The line \<^verbatim>\<open>NAK\<close> has no newline; \<^verbatim>\<open>WriteLine\<close> writes
  \<^verbatim>\<open>0008NAK\<close> and a newline, and decoding these bytes yields \<^verbatim>\<open>NAK\<close> followed by the
  newline, which is not the line that was written. And for a line of 65531 bytes the prefix,
  the rendering of \<open>4 + 65531 + 1\<close>, has five digits, not four.
\<close>

theorem packet_line_round_trip_counterexample:
  "CHR 0x0A \<notin> set ''NAK''
   \<and> w (WriteLine memWriter (NewPacketLineWriter []) ''NAK'') = ''0008NAK'' @ [CHR 0x0A]
   \<and> decodePktLine (w (WriteLine memWriter (NewPacketLineWriter []) ''NAK''))
       = Inr (PktLine (''NAK'' @ [CHR 0x0A]), [])
   \<and> PktLine (''NAK'' @ [CHR 0x0A]) \<noteq> PktLine ''NAK''
   \<and> Sprintf_04x (4 + 65531 + 1) = ''10000''"
proof -
  have h8: "Sprintf_04x 8 = ''0008''" by code_simp
  have a: "CHR 0x0A \<notin> set ''NAK''" by simp
  have b: "w (WriteLine memWriter (NewPacketLineWriter []) ''NAK'') = ''0008NAK'' @ [CHR 0x0A]"
    by (simp add: WriteLine_memWriter NewPacketLineWriter_def h8)
  have "hexValue ''0008'' = Some 8" using hexValue_Sprintf_04x[of 8] by (simp add: h8)
  then have c: "decodePktLine (w (WriteLine memWriter (NewPacketLineWriter []) ''NAK''))
       = Inr (PktLine (''NAK'' @ [CHR 0x0A]), [])"
    unfolding b by (simp add: decodePktLine_def)
  have d: "PktLine (''NAK'' @ [CHR 0x0A]) \<noteq> PktLine ''NAK''" by simp
  have e: "Sprintf_04x (4 + 65531 + 1) = ''10000''"
    by (simp add: Sprintf_04x_def hexDigits.simps hexDigit_def)
  show ?thesis by (intro conjI) (fact a, fact b, fact c, fact d, fact e)
qed

text \<open>
  Claim C4, amended. On a writer with no recorded error (here over a buffer that keeps every
  byte) \<^verbatim>\<open>WriteLine\<close> appends the \<^verbatim>\<open>%04x\<close> rendering of \<open>4 + length s + 1\<close>, then
  \<open>s\<close>, then a newline. For a line of at most 65530 bytes, with or without newlines in it,
  the rendering is four hexadecimal digits whose value is that length, and decoding the
  encoding yields \<open>s\<close> followed by the newline, with the bytes after the packet left over:
  \<open>s\<close> is what remains of the decoded line after its last byte is dropped.
\<close>

theorem packet_line_round_trip:
  "(err pw = None \<longrightarrow>
      WriteLine memWriter pw s
        = pw\<lparr>w := w pw @ Sprintf_04x (4 + length s + 1) @ s @ [CHR 0x0A]\<rparr>)
   \<and> (length s \<le> 65530 \<longrightarrow>
        length (Sprintf_04x (4 + length s + 1)) = 4 \<and>
        hexValue (Sprintf_04x (4 + length s + 1)) = Some (4 + length s + 1) \<and>
        decodePktLine (w (WriteLine memWriter (NewPacketLineWriter []) s) @ rest)
          = Inr (PktLine (s @ [CHR 0x0A]), rest) \<and>
        butlast (s @ [CHR 0x0A]) = s)"
proof (intro conjI impI)
  assume "err pw = None"
  then show "WriteLine memWriter pw s
        = pw\<lparr>w := w pw @ Sprintf_04x (4 + length s + 1) @ s @ [CHR 0x0A]\<rparr>"
    by (rule WriteLine_memWriter)
next
  assume l: "length s \<le> 65530"
  then show "length (Sprintf_04x (4 + length s + 1)) = 4"
    by (intro length_Sprintf_04x) simp
  show "hexValue (Sprintf_04x (4 + length s + 1)) = Some (4 + length s + 1)"
    by (rule hexValue_Sprintf_04x)
  show "decodePktLine (w (WriteLine memWriter (NewPacketLineWriter []) s) @ rest)
          = Inr (PktLine (s @ [CHR 0x0A]), rest)"
    using decodePktLine_encoded[OF l, of rest]
    by (simp add: WriteLine_memWriter NewPacketLineWriter_def)
  show "butlast (s @ [CHR 0x0A]) = s" by simp
qed

theorem packet_line_round_trip_witness:
  "err (NewPacketLineWriter ''0000'' :: string PacketLineWriter) = None
   \<and> WriteLine memWriter (NewPacketLineWriter ''0000'') ''NAK''
       = \<lparr>err = None, w = ''00000008NAK'' @ [CHR 0x0A]\<rparr>
   \<and> length ''NAK'' \<le> 65530
   \<and> decodePktLine (w (WriteLine memWriter (NewPacketLineWriter []) ''NAK'') @ ''0000'')
       = Inr (PktLine (''NAK'' @ [CHR 0x0A]), ''0000'')"
proof -
  have h8: "Sprintf_04x 8 = ''0008''" by code_simp
  have a: "err (NewPacketLineWriter ''0000'' :: string PacketLineWriter) = None"
    by (simp add: NewPacketLineWriter_def)
  have b: "length ''NAK'' \<le> 65530" by simp
  note t = packet_line_round_trip[of "NewPacketLineWriter ''0000''" "''NAK''" "''0000''"]
  from t a have "WriteLine memWriter (NewPacketLineWriter ''0000'') ''NAK''
       = (NewPacketLineWriter ''0000'')
           \<lparr>w := w (NewPacketLineWriter ''0000'') @ Sprintf_04x (4 + length ''NAK'' + 1)
                  @ ''NAK'' @ [CHR 0x0A]\<rparr>"
    by blast
  then have r1: "WriteLine memWriter (NewPacketLineWriter ''0000'') ''NAK''
       = \<lparr>err = None, w = ''00000008NAK'' @ [CHR 0x0A]\<rparr>"
    by (simp add: NewPacketLineWriter_def h8)
  from t b have r2: "decodePktLine (w (WriteLine memWriter (NewPacketLineWriter []) ''NAK'') @ ''0000'')
       = Inr (PktLine (''NAK'' @ [CHR 0x0A]), ''0000'')"
    by blast
  show ?thesis by (intro conjI) (fact a, fact r1, fact b, fact r2)
qed

subsection \<open>serveGitInfoRefs\<close>

text \<open>\<^verbatim>\<open>Hash.String()\<close>: forty lower-case hexadecimal digits.\<close>

definition Hash_String :: "Hash \<Rightarrow> string" where
  "Hash_String h = concat (map (\<lambda>b. [hexDigit (unat b div 16), hexDigit (unat b mod 16)]) h)"

text \<open>\<^verbatim>\<open>ReferenceName.IsRemote\<close>: the name starts with \<^verbatim>\<open>refs/remotes/\<close>.\<close>

definition IsRemote :: "string \<Rightarrow> bool" where
  "IsRemote name = (take 13 name = ''refs/remotes/'')"

fun strings_Join :: "string list \<Rightarrow> string \<Rightarrow> string" where
  "strings_Join [] sep = []"
| "strings_Join [x] sep = x"
| "strings_Join (x # y # ys) sep = x @ sep @ strings_Join (y # ys) sep"

text \<open>
  The callback that \<^verbatim>\<open>serveGitInfoRefs\<close> passes to \<^verbatim>\<open>it.ForEach\<close>; \<open>refs\<close> is the
  slice of advertisement lines built so far, which the callback returns updated.
\<close>

definition advertise :: "Storer \<Rightarrow> Reference \<Rightarrow> string list \<Rightarrow> error + string list" where
  "advertise st ref refs =
     (let name = RefName ref in
      if IsRemote name then Inr refs
      else
        case (case RefType ref of
                SymbolicReference \<Rightarrow>
                  (case ResolveReference st (RefName ref) of
                     Inl e \<Rightarrow> Inr None
                   | Inr r \<Rightarrow> Inr (Some r))
              | HashReference \<Rightarrow> Inr (Some ref)
              | InvalidReference \<Rightarrow> Inl (UnexpectedReference name)) of
          Inl e \<Rightarrow> Inl e
        | Inr None \<Rightarrow> Inr refs
        | Inr (Some resolved) \<Rightarrow>
            (let s = Hash_String (RefHash resolved) @ '' '' @ name in
             if name = ''HEAD'' then Inr (s # refs) else Inr (refs @ [s])))"

text \<open>\<^verbatim>\<open>ForEach\<close> stops at the first error that the callback returns.\<close>

fun ForEach :: "(Reference \<Rightarrow> 'a \<Rightarrow> error + 'a) \<Rightarrow> Reference list \<Rightarrow> 'a \<Rightarrow> error + 'a" where
  "ForEach f [] acc = Inr acc"
| "ForEach f (ref # it) acc =
     (case f ref acc of
        Inl e \<Rightarrow> Inl e
      | Inr acc' \<Rightarrow> ForEach f it acc')"

text \<open>The loop \<^verbatim>\<open>for i, ref := range refs\<close> that writes the advertisement lines.\<close>

fun writeRefs ::
  "'b bufio_Writer \<Rightarrow> 'b PacketLineWriter \<Rightarrow> string list \<Rightarrow> nat \<Rightarrow> string list \<Rightarrow> 'b PacketLineWriter" where
  "writeRefs io gw capabilities i [] = gw"
| "writeRefs io gw capabilities i (ref # refs) =
     (let s = (if i = 0 then ref @ [CHR 0x00] @ strings_Join capabilities '' '' else ref)
      in writeRefs io (WriteLine io gw s) capabilities (i + 1) refs)"

record 'b Response =
  ContentType :: string
  CacheControl :: string
  StatusCode :: nat
  gw :: "'b PacketLineWriter"

definition serveGitInfoRefs ::
  "'b bufio_Writer \<Rightarrow> 'b \<Rightarrow> Storer \<Rightarrow> string \<Rightarrow> error + 'b Response" where
  "serveGitInfoRefs io b st serviceName =
     (case (if serviceName = ''git-upload-pack'' then Inr [''symref=HEAD:refs/heads/main'']
            else if serviceName = ''git-receive-pack'' then Inr []
            else Inl (UnknownServiceName serviceName)) of
        Inl e \<Rightarrow> Inl e
      | Inr capabilities \<Rightarrow>
          (case IterReferences st of
             Inl e \<Rightarrow> Inl e
           | Inr it \<Rightarrow>
               (case ForEach (advertise st) it [] of
                  Inl e \<Rightarrow> Inl e
                | Inr refs \<Rightarrow>
                    (let g0 = NewPacketLineWriter b;
                         g1 = WriteLine io g0 (''# service='' @ serviceName);
                         g2 = WriteZeroPacketLine io g1;
                         g3 = writeRefs io g2 capabilities 0 refs;
                         g4 = WriteZeroPacketLine io g3
                     in Inr \<lparr>ContentType = ''application/x-'' @ serviceName @ ''-advertisement'',
                             CacheControl = ''no-cache'',
                             StatusCode = 200,
                             gw = fst (Flush io g4)\<rparr>))))"

text \<open>The lines that the loop passes to \<^verbatim>\<open>WriteLine\<close>.\<close>

lemma write_calls_append:
  "write_calls io pw (cs @ ds) = write_calls io (write_calls io pw cs) ds"
proof (induction cs arbitrary: pw)
  case Nil
  show ?case by simp
next
  case (Cons c cs)
  then show ?case by (cases c) simp_all
qed

lemma writeRefs_later:
  "0 < i \<Longrightarrow> writeRefs io pw caps i refs = write_calls io pw (map CallWriteLine refs)"
  by (induction refs arbitrary: pw i) simp_all

lemma writeRefs_lines:
  "writeRefs io pw caps 0 refs =
     write_calls io pw
       (map CallWriteLine
          (case refs of [] \<Rightarrow> [] | r # rs \<Rightarrow> (r @ [CHR 0x00] @ strings_Join caps '' '') # rs))"
  by (cases refs) (simp_all add: writeRefs_later)

lemma hexDigit_not_NUL: "d < 16 \<Longrightarrow> hexDigit d \<noteq> CHR 0x00"
proof -
  assume "d < 16"
  then have "d = 0 \<or> d = 1 \<or> d = 2 \<or> d = 3 \<or> d = 4 \<or> d = 5 \<or> d = 6 \<or> d = 7 \<or> d = 8
             \<or> d = 9 \<or> d = 10 \<or> d = 11 \<or> d = 12 \<or> d = 13 \<or> d = 14 \<or> d = 15"
    by arith
  then show ?thesis
    by (elim disjE) (simp_all add: hexDigit_def nth_Cons')
qed

lemma hexDigit_byte_not_NUL:
  fixes b :: byte
  shows "hexDigit (unat b div 16) \<noteq> CHR 0x00" and "hexDigit (unat b mod 16) \<noteq> CHR 0x00"
proof -
  show "hexDigit (unat b div 16) \<noteq> CHR 0x00"
    using unsigned_less[of b, where 'a = nat]
    by (intro hexDigit_not_NUL) (simp add: less_mult_imp_div_less)
  show "hexDigit (unat b mod 16) \<noteq> CHR 0x00"
    by (intro hexDigit_not_NUL) simp
qed

lemma Hash_String_no_NUL: "CHR 0x00 \<notin> set (Hash_String h)"
  by (induction h)
     (simp_all add: Hash_String_def hexDigit_byte_not_NUL hexDigit_byte_not_NUL[symmetric])

lemma advertise_cases:
  assumes "advertise st ref refs = Inr out"
  shows "out = refs \<or> (\<exists>h. out = (Hash_String h @ '' '' @ RefName ref) # refs)
         \<or> (\<exists>h. out = refs @ [Hash_String h @ '' '' @ RefName ref])"
proof (cases "IsRemote (RefName ref)")
  case True
  with assms show ?thesis by (simp add: advertise_def)
next
  case False
  show ?thesis
  proof (cases "RefType ref")
    case InvalidReference
    with assms False show ?thesis by (simp add: advertise_def)
  next
    case HashReference
    with assms False show ?thesis by (auto simp: advertise_def Let_def split: if_splits)
  next
    case SymbolicReference
    show ?thesis
    proof (cases "ResolveReference st (RefName ref)")
      case (Inl e)
      with assms False SymbolicReference show ?thesis by (simp add: advertise_def)
    next
      case (Inr r)
      with assms False SymbolicReference show ?thesis
        by (auto simp: advertise_def Let_def split: if_splits)
    qed
  qed
qed

lemma advertise_no_NUL:
  assumes "advertise st ref refs = Inr out" and "CHR 0x00 \<notin> set (RefName ref)"
    and "\<forall>l \<in> set refs. CHR 0x00 \<notin> set l"
  shows "\<forall>l \<in> set out. CHR 0x00 \<notin> set l"
  using advertise_cases[OF assms(1)] assms(2,3) Hash_String_no_NUL by auto

lemma ForEach_advertise_no_NUL:
  assumes "ForEach (advertise st) it refs = Inr out"
    and "\<forall>ref \<in> set it. CHR 0x00 \<notin> set (RefName ref)"
    and "\<forall>l \<in> set refs. CHR 0x00 \<notin> set l"
  shows "\<forall>l \<in> set out. CHR 0x00 \<notin> set l"
  using assms
proof (induction it arbitrary: refs)
  case Nil
  then show ?case by simp
next
  case (Cons ref it)
  from Cons.prems(1) obtain mid where a: "advertise st ref refs = Inr mid"
    and f: "ForEach (advertise st) it mid = Inr out"
    by (auto split: sum.splits)
  from advertise_no_NUL[OF a] Cons.prems(2,3) have "\<forall>l \<in> set mid. CHR 0x00 \<notin> set l" by simp
  with Cons.IH[OF f] Cons.prems(2) show ?case by simp
qed

lemma count_list_no_NUL: "c \<notin> set l \<Longrightarrow> count_list l c = 0"
  by simp

lemma serveGitInfoRefs_calls:
  assumes sv: "serviceName = ''git-upload-pack'' \<or> serviceName = ''git-receive-pack''"
    and it: "IterReferences st = Inr it" and refs: "ForEach (advertise st) it [] = Inr refs"
  shows "serveGitInfoRefs io b st serviceName =
        Inr \<lparr>ContentType = ''application/x-'' @ serviceName @ ''-advertisement'',
             CacheControl = ''no-cache'',
             StatusCode = 200,
             gw = fst (Flush io
                    (write_calls io (NewPacketLineWriter b)
                       ([CallWriteLine (''# service='' @ serviceName), CallWriteZeroPacketLine]
                        @ map CallWriteLine
                            (case refs of
                               [] \<Rightarrow> []
                             | r # rs \<Rightarrow>
                                 (r @ [CHR 0x00] @
                                    (if serviceName = ''git-upload-pack''
                                     then ''symref=HEAD:refs/heads/main'' else [])) # rs)
                        @ [CallWriteZeroPacketLine])))\<rparr>"
proof -
  let ?caps = "if serviceName = ''git-upload-pack'' then [''symref=HEAD:refs/heads/main''] else []"
  have j: "strings_Join ?caps '' '' =
             (if serviceName = ''git-upload-pack'' then ''symref=HEAD:refs/heads/main'' else [])"
    by simp
  have c: "(if serviceName = ''git-upload-pack'' then Inr [''symref=HEAD:refs/heads/main'']
            else if serviceName = ''git-receive-pack'' then Inr []
            else Inl (UnknownServiceName serviceName)) = (Inr ?caps :: error + string list)"
    using sv by auto
  show ?thesis
    unfolding serveGitInfoRefs_def c
    by (simp only: sum.case it refs Let_def writeRefs_lines j write_calls_append
          write_calls.simps append.simps)
qed

lemma WriteZeroPacketLine_memWriter:
  "err pw = None \<Longrightarrow> WriteZeroPacketLine memWriter pw = pw\<lparr>w := w pw @ ''0000''\<rparr>"
  by (simp add: WriteZeroPacketLine_def memWriter_def)

lemma Flush_memWriter: "err pw = None \<Longrightarrow> Flush memWriter pw = (pw, None)"
  by (simp add: Flush_def memWriter_def)

lemma hashOf_list: "hashOf x = [x, x, x, x, x, x, x, x, x, x, x, x, x, x, x, x, x, x, x, x]"
  by (simp add: hashOf_def numeral_eq_Suc)

lemma Hash_String_hashOf_3:
  "Hash_String (hashOf 3) = ''0303030303030303030303030303030303030303''"
  by (simp add: hashOf_list Hash_String_def hexDigit_def)

text \<open>
  Two branches at one commit; the name of the second contains a NUL byte, which the store
  accepts.
\<close>

definition nulNameStore :: Storer where
  "nulNameStore =
     \<lparr>objects = [(hashOf 2, Tree []), (hashOf 3, Commit (hashOf 2) [])],
      references =
        [NewHashReference ''refs/heads/main'' (hashOf 3),
         NewHashReference (''refs/heads/a'' @ [CHR 0x00] @ ''b'') (hashOf 3)]\<rparr>"

lemma advertise_nulNameStore:
  "ForEach (advertise nulNameStore) (references nulNameStore) [] =
     Inr [''0303030303030303030303030303030303030303 refs/heads/main'',
          ''0303030303030303030303030303030303030303 refs/heads/a'' @ [CHR 0x00] @ ''b'']"
  by (simp add: nulNameStore_def advertise_def IsRemote_def NewHashReference_def
        Hash_String_hashOf_3)

text \<open>
  Claim C8, as stated, fails in its last part. Nothing is appended to a line after the
  first, but the line is \<^verbatim>\<open><hash> <name>\<close> with the name as the store holds it: in
  \<open>nulNameStore\<close> the handler writes, as the line at index 1, a line that carries a NUL.
\<close>

theorem capabilities_on_first_line_counterexample:
  "ForEach (advertise nulNameStore) (references nulNameStore) [] =
     Inr [''0303030303030303030303030303030303030303 refs/heads/main'',
          ''0303030303030303030303030303030303030303 refs/heads/a'' @ [CHR 0x00] @ ''b'']
   \<and> serveGitInfoRefs memWriter [] nulNameStore ''git-receive-pack'' =
       Inr \<lparr>ContentType = ''application/x-git-receive-pack-advertisement'',
            CacheControl = ''no-cache'',
            StatusCode = 200,
            gw = write_calls memWriter (NewPacketLineWriter [])
                   [CallWriteLine ''# service=git-receive-pack'',
                    CallWriteZeroPacketLine,
                    CallWriteLine (''0303030303030303030303030303030303030303 refs/heads/main''
                                     @ [CHR 0x00]),
                    CallWriteLine (''0303030303030303030303030303030303030303 refs/heads/a''
                                     @ [CHR 0x00] @ ''b''),
                    CallWriteZeroPacketLine]\<rparr>
   \<and> CHR 0x00 \<in> set (''0303030303030303030303030303030303030303 refs/heads/a''
                         @ [CHR 0x00] @ ''b'')"
proof -
  have s: "(''git-receive-pack'' :: string) = ''git-upload-pack'' \<or>
           (''git-receive-pack'' :: string) = ''git-receive-pack''" by simp
  have i: "IterReferences nulNameStore = Inr (references nulNameStore)"
    by (simp add: IterReferences_def)
  have e: "err (write_calls memWriter (NewPacketLineWriter []) cs) = None" for cs
  proof (induction cs rule: rev_induct)
    case Nil
    show ?case by (simp add: NewPacketLineWriter_def)
  next
    case (snoc c cs)
    then show ?case
      by (cases c)
         (simp_all add: write_calls_append WriteLine_memWriter WriteZeroPacketLine_memWriter)
  qed
  have b: "serveGitInfoRefs memWriter [] nulNameStore ''git-receive-pack'' =
       Inr \<lparr>ContentType = ''application/x-git-receive-pack-advertisement'',
            CacheControl = ''no-cache'',
            StatusCode = 200,
            gw = write_calls memWriter (NewPacketLineWriter [])
                   [CallWriteLine ''# service=git-receive-pack'',
                    CallWriteZeroPacketLine,
                    CallWriteLine (''0303030303030303030303030303030303030303 refs/heads/main''
                                     @ [CHR 0x00]),
                    CallWriteLine (''0303030303030303030303030303030303030303 refs/heads/a''
                                     @ [CHR 0x00] @ ''b''),
                    CallWriteZeroPacketLine]\<rparr>"
    unfolding serveGitInfoRefs_calls[OF s i advertise_nulNameStore]
    by (simp add: Flush_memWriter e del: write_calls.simps)
  have c: "CHR 0x00 \<in> set (''0303030303030303030303030303030303030303 refs/heads/a''
                         @ [CHR 0x00] @ ''b'')" by simp
  show ?thesis by (intro conjI) (fact advertise_nulNameStore, fact b, fact c)
qed

text \<open>
  Claim C8, amended. For the services \<^verbatim>\<open>git-upload-pack\<close> and \<^verbatim>\<open>git-receive-pack\<close>, with \<open>refs\<close>
  the advertisement lines \<^verbatim>\<open><hash> <name>\<close> built from the references, the response body
  is written by these calls in order: the service line, a zero packet, one \<^verbatim>\<open>WriteLine\<close> per
  advertisement line, a zero packet, and the flush. The line at index 0 is the first
  advertisement line followed by one NUL byte and the capability string, which is
  \<^verbatim>\<open>symref=HEAD:refs/heads/main\<close> for upload-pack and empty for receive-pack; every other
  line is the advertisement line itself. When no reference name contains a NUL byte, no
  advertisement line contains one, so the first line written has exactly one NUL and the
  others have none.
\<close>

theorem capabilities_on_first_line:
  "(serviceName = ''git-upload-pack'' \<or> serviceName = ''git-receive-pack'' \<longrightarrow>
    IterReferences st = Inr it \<longrightarrow> ForEach (advertise st) it [] = Inr refs \<longrightarrow>
      serveGitInfoRefs io b st serviceName =
        Inr \<lparr>ContentType = ''application/x-'' @ serviceName @ ''-advertisement'',
             CacheControl = ''no-cache'',
             StatusCode = 200,
             gw = fst (Flush io
                    (write_calls io (NewPacketLineWriter b)
                       ([CallWriteLine (''# service='' @ serviceName), CallWriteZeroPacketLine]
                        @ map CallWriteLine
                            (case refs of
                               [] \<Rightarrow> []
                             | r # rs \<Rightarrow>
                                 (r @ [CHR 0x00] @
                                    (if serviceName = ''git-upload-pack''
                                     then ''symref=HEAD:refs/heads/main'' else [])) # rs)
                        @ [CallWriteZeroPacketLine])))\<rparr>
      \<and> ((\<forall>ref \<in> set it. CHR 0x00 \<notin> set (RefName ref)) \<longrightarrow>
           (\<forall>l \<in> set refs. CHR 0x00 \<notin> set l) \<and>
           (\<forall>r rs. refs = r # rs \<longrightarrow>
              count_list (r @ [CHR 0x00] @
                            (if serviceName = ''git-upload-pack''
                             then ''symref=HEAD:refs/heads/main'' else [])) (CHR 0x00) = 1)))"
proof (intro impI conjI)
  assume sv: "serviceName = ''git-upload-pack'' \<or> serviceName = ''git-receive-pack''"
    and it: "IterReferences st = Inr it" and refs: "ForEach (advertise st) it [] = Inr refs"
  show "serveGitInfoRefs io b st serviceName =
        Inr \<lparr>ContentType = ''application/x-'' @ serviceName @ ''-advertisement'',
             CacheControl = ''no-cache'',
             StatusCode = 200,
             gw = fst (Flush io
                    (write_calls io (NewPacketLineWriter b)
                       ([CallWriteLine (''# service='' @ serviceName), CallWriteZeroPacketLine]
                        @ map CallWriteLine
                            (case refs of
                               [] \<Rightarrow> []
                             | r # rs \<Rightarrow>
                                 (r @ [CHR 0x00] @
                                    (if serviceName = ''git-upload-pack''
                                     then ''symref=HEAD:refs/heads/main'' else [])) # rs)
                        @ [CallWriteZeroPacketLine])))\<rparr>"
    using sv it refs by (rule serveGitInfoRefs_calls)
  assume nn: "\<forall>ref \<in> set it. CHR 0x00 \<notin> set (RefName ref)"
  show n: "\<forall>l \<in> set refs. CHR 0x00 \<notin> set l"
    using ForEach_advertise_no_NUL[OF refs nn] by simp
  show "\<forall>r rs. refs = r # rs \<longrightarrow>
              count_list (r @ [CHR 0x00] @
                            (if serviceName = ''git-upload-pack''
                             then ''symref=HEAD:refs/heads/main'' else [])) (CHR 0x00) = 1"
    using n by (auto simp: count_list_no_NUL)
qed

lemma advertise_twoCommitStore:
  "ForEach (advertise twoCommitStore) (references twoCommitStore) [] =
     Inr [''0404040404040404040404040404040404040404 HEAD'',
          ''0404040404040404040404040404040404040404 refs/heads/main'',
          ''0303030303030303030303030303030303030303 refs/heads/old'']"
proof -
  have r: "ResolveReference twoCommitStore ''HEAD''
             = Inr (NewHashReference ''refs/heads/main'' (hashOf 4))"
    by (simp add: ResolveReference_def Storer_Reference_def twoCommitStore_def
          NewSymbolicReference_def NewHashReference_def
          resolveReference.simps MaxResolveRecursion_def)
  have h4: "Hash_String (hashOf 4) = ''0404040404040404040404040404040404040404''"
    by (simp add: hashOf_list Hash_String_def hexDigit_def)
  note h3 = Hash_String_hashOf_3
  have a1: "advertise twoCommitStore (NewSymbolicReference ''HEAD'' ''refs/heads/main'') []
              = Inr [''0404040404040404040404040404040404040404 HEAD'']"
    using r by (simp add: advertise_def IsRemote_def NewSymbolicReference_def
                  NewHashReference_def h4)
  have a2: "advertise twoCommitStore (NewHashReference ''refs/heads/main'' (hashOf 4)) l
              = Inr (l @ [''0404040404040404040404040404040404040404 refs/heads/main''])" for l
    by (simp add: advertise_def IsRemote_def NewHashReference_def h4)
  have a3: "advertise twoCommitStore (NewHashReference ''refs/heads/old'' (hashOf 3)) l
              = Inr (l @ [''0303030303030303030303030303030303030303 refs/heads/old''])" for l
    by (simp add: advertise_def IsRemote_def NewHashReference_def h3)
  have "references twoCommitStore =
          [NewSymbolicReference ''HEAD'' ''refs/heads/main'',
           NewHashReference ''refs/heads/main'' (hashOf 4),
           NewHashReference ''refs/heads/old'' (hashOf 3)]"
    by (simp add: twoCommitStore_def)
  then show ?thesis by (simp add: a1 a2 a3)
qed

text \<open>
  The advertisement of \<open>twoCommitStore\<close> for \<^verbatim>\<open>git-upload-pack\<close>, written to a buffer
  that keeps every byte: the \<^verbatim>\<open>HEAD\<close> line comes first and carries the NUL and the
  capability; the two lines after it carry neither.
\<close>

theorem capabilities_on_first_line_witness:
  "IterReferences twoCommitStore = Inr (references twoCommitStore)
   \<and> ForEach (advertise twoCommitStore) (references twoCommitStore) [] =
       Inr [''0404040404040404040404040404040404040404 HEAD'',
            ''0404040404040404040404040404040404040404 refs/heads/main'',
            ''0303030303030303030303030303030303030303 refs/heads/old'']
   \<and> serveGitInfoRefs memWriter [] twoCommitStore ''git-upload-pack'' =
       Inr \<lparr>ContentType = ''application/x-git-upload-pack-advertisement'',
            CacheControl = ''no-cache'',
            StatusCode = 200,
            gw = \<lparr>err = None,
                   w = ''001e# service=git-upload-pack'' @ [CHR 0x0A] @ ''0000''
                       @ ''004e0404040404040404040404040404040404040404 HEAD'' @ [CHR 0x00]
                       @ ''symref=HEAD:refs/heads/main'' @ [CHR 0x0A]
                       @ ''003d0404040404040404040404040404040404040404 refs/heads/main''
                       @ [CHR 0x0A]
                       @ ''003c0303030303030303030303030303030303030303 refs/heads/old''
                       @ [CHR 0x0A] @ ''0000''\<rparr>\<rparr>
   \<and> CHR 0x00 \<notin> set ''HEAD'' \<and> CHR 0x00 \<notin> set ''refs/heads/main''
   \<and> CHR 0x00 \<notin> set ''refs/heads/old''
   \<and> CHR 0x00 \<notin> set ''0404040404040404040404040404040404040404 refs/heads/main''
   \<and> CHR 0x00 \<notin> set ''0303030303030303030303030303030303030303 refs/heads/old''
   \<and> count_list (''0404040404040404040404040404040404040404 HEAD'' @ [CHR 0x00]
                   @ ''symref=HEAD:refs/heads/main'') (CHR 0x00) = 1"
proof -
  let ?l1 = "''0404040404040404040404040404040404040404 HEAD''"
  let ?l2 = "''0404040404040404040404040404040404040404 refs/heads/main''"
  let ?l3 = "''0303030303030303030303030303030303030303 refs/heads/old''"
  have a: "IterReferences twoCommitStore = Inr (references twoCommitStore)"
    by (simp add: IterReferences_def)
  have s: "(''git-upload-pack'' :: string) = ''git-upload-pack'' \<or>
           (''git-upload-pack'' :: string) = ''git-receive-pack''" by simp
  have n: "\<forall>ref \<in> set (references twoCommitStore). CHR 0x00 \<notin> set (RefName ref)"
    by (simp add: twoCommitStore_def NewSymbolicReference_def NewHashReference_def)
  note t = capabilities_on_first_line[of "''git-upload-pack''" twoCommitStore
             "references twoCommitStore" "[?l1, ?l2, ?l3]" memWriter "[]"]
  have p1: "Sprintf_04x 30 = ''001e''" and p2: "Sprintf_04x 78 = ''004e''"
    and p3: "Sprintf_04x 61 = ''003d''" and p4: "Sprintf_04x 60 = ''003c''"
    by code_simp+
  from t s a advertise_twoCommitStore
  have "serveGitInfoRefs memWriter [] twoCommitStore ''git-upload-pack'' =
        Inr \<lparr>ContentType = ''application/x-'' @ ''git-upload-pack'' @ ''-advertisement'',
             CacheControl = ''no-cache'',
             StatusCode = 200,
             gw = fst (Flush memWriter
                    (write_calls memWriter (NewPacketLineWriter [])
                       ([CallWriteLine (''# service='' @ ''git-upload-pack''),
                         CallWriteZeroPacketLine]
                        @ map CallWriteLine
                            (case [?l1, ?l2, ?l3] of
                               [] \<Rightarrow> []
                             | r # rs \<Rightarrow>
                                 (r @ [CHR 0x00] @
                                    (if (''git-upload-pack'' :: string) = ''git-upload-pack''
                                     then ''symref=HEAD:refs/heads/main'' else [])) # rs)
                        @ [CallWriteZeroPacketLine])))\<rparr>"
    by blast
  then have r1: "serveGitInfoRefs memWriter [] twoCommitStore ''git-upload-pack'' =
       Inr \<lparr>ContentType = ''application/x-git-upload-pack-advertisement'',
            CacheControl = ''no-cache'',
            StatusCode = 200,
            gw = \<lparr>err = None,
                   w = ''001e# service=git-upload-pack'' @ [CHR 0x0A] @ ''0000''
                       @ ''004e0404040404040404040404040404040404040404 HEAD'' @ [CHR 0x00]
                       @ ''symref=HEAD:refs/heads/main'' @ [CHR 0x0A]
                       @ ''003d0404040404040404040404040404040404040404 refs/heads/main''
                       @ [CHR 0x0A]
                       @ ''003c0303030303030303030303030303030303030303 refs/heads/old''
                       @ [CHR 0x0A] @ ''0000''\<rparr>\<rparr>"
    by (simp add: WriteLine_memWriter WriteZeroPacketLine_memWriter Flush_memWriter
          NewPacketLineWriter_def p1 p2 p3 p4)
  note u = t[THEN mp, OF s, THEN mp, OF a, THEN mp, OF advertise_twoCommitStore]
  note v = u[THEN conjunct2, THEN mp, OF n]
  have q: "\<forall>l \<in> set [?l1, ?l2, ?l3]. CHR 0x00 \<notin> set l"
    by (rule v[THEN conjunct1])
  have c: "\<forall>r rs. [?l1, ?l2, ?l3] = r # rs \<longrightarrow>
              count_list (r @ [CHR 0x00] @
                (if (''git-upload-pack'' :: string) = ''git-upload-pack''
                 then ''symref=HEAD:refs/heads/main'' else [])) (CHR 0x00) = 1"
    by (rule v[THEN conjunct2])
  from q have r2: "CHR 0x00 \<notin> set ?l2" and r3: "CHR 0x00 \<notin> set ?l3" by simp_all
  from c[THEN spec, of ?l1, THEN spec, of "[?l2, ?l3]"]
  have r4: "count_list (?l1 @ [CHR 0x00] @ ''symref=HEAD:refs/heads/main'') (CHR 0x00) = 1"
    by simp
  have n1: "CHR 0x00 \<notin> set ''HEAD''" and n2: "CHR 0x00 \<notin> set ''refs/heads/main''"
    and n3: "CHR 0x00 \<notin> set ''refs/heads/old''" by simp_all
  show ?thesis
    by (intro conjI) (fact a, fact advertise_twoCommitStore, fact r1, fact n1, fact n2, fact n3,
        fact r2, fact r3, fact r4)
qed

subsection \<open>serveGitReceivePack\<close>

text \<open>
  \<^verbatim>\<open>strings.SplitN(s, sep, n)\<close> and \<^verbatim>\<open>strings.Split(s, sep)\<close> for a separator of one
  byte: \<open>SplitN\<close> cuts at the first \<open>n - 1\<close> separators and leaves the rest unsplit.
\<close>

fun strings_SplitN :: "string \<Rightarrow> char \<Rightarrow> nat \<Rightarrow> string list" where
  "strings_SplitN s sep 0 = []"
| "strings_SplitN s sep (Suc 0) = [s]"
| "strings_SplitN s sep (Suc (Suc n)) =
     (if sep \<in> set s
      then takeWhile (\<lambda>c. c \<noteq> sep) s # strings_SplitN (tl (dropWhile (\<lambda>c. c \<noteq> sep) s)) sep (Suc n)
      else [s])"

primrec split_from :: "char \<Rightarrow> string \<Rightarrow> string \<Rightarrow> string list" where
  "split_from sep cur [] = [rev cur]"
| "split_from sep cur (c # cs) =
     (if c = sep then rev cur # split_from sep [] cs else split_from sep (c # cur) cs)"

definition strings_Split :: "string \<Rightarrow> char \<Rightarrow> string list" where
  "strings_Split s sep = split_from sep [] s"

text \<open>\<^verbatim>\<open>hex.DecodeString\<close>: two digits a byte; an odd length or a byte that is no digit fails.\<close>

fun hex_DecodeString :: "string \<Rightarrow> error + byte list" where
  "hex_DecodeString [] = Inr []"
| "hex_DecodeString [c] =
     (case fromHexChar c of None \<Rightarrow> Inl InvalidByteError | Some x \<Rightarrow> Inl ErrLength)"
| "hex_DecodeString (a # b # rest) =
     (case (fromHexChar a, fromHexChar b) of
        (Some x, Some y) \<Rightarrow>
          (case hex_DecodeString rest of
             Inl e \<Rightarrow> Inl e
           | Inr bs \<Rightarrow> Inr (of_nat (16 * x + y) # bs))
      | _ \<Rightarrow> Inl InvalidByteError)"

definition parseHash :: "string \<Rightarrow> error + Hash" where
  "parseHash s =
     (case hex_DecodeString s of
        Inl e \<Rightarrow> Inl (NotHex s)
      | Inr b \<Rightarrow> if length b \<noteq> 20 then Inl (WrongLength s) else Inr b)"

record RefUpdate =
  From :: Hash
  To :: Hash
  Ref :: string

text \<open>
  The body of the loop over the request lines, from \<^verbatim>\<open>strings.SplitN\<close> to the
  \<^verbatim>\<open>append\<close>: it returns the update and, for a first line with a NUL-separated segment, the
  client capabilities.
\<close>

definition refUpdateLine :: "bool \<Rightarrow> string \<Rightarrow> error + (RefUpdate \<times> string list option)" where
  "refUpdateLine firstLine line =
     (let tokens = strings_SplitN line (CHR '' '') 3 in
      if length tokens \<noteq> 3 then Inl (UnexpectedLineSpaces line)
      else
        let refTokens = strings_Split (tokens ! 2) (CHR 0x00);
            ref = hd refTokens
        in if \<not> firstLine \<and> length refTokens \<noteq> 1 then Inl (UnexpectedLineNulls line)
           else
             let clientCapabilites =
                   (if firstLine \<and> length refTokens > 1 then Some (tl refTokens) else None)
             in case parseHash (tokens ! 0) of
                  Inl e \<Rightarrow> Inl (UnexpectedLineHash1 line)
                | Inr from \<Rightarrow>
                    (case parseHash (tokens ! 1) of
                       Inl e \<Rightarrow> Inl (UnexpectedLineHash2 line)
                     | Inr to \<Rightarrow>
                         Inr (\<lparr>From = from, To = to, Ref = ref\<rparr>, clientCapabilites)))"

text \<open>
  Modelled from the spec: one \<^verbatim>\<open>Scan\<close> of the packet-line scanner over the request body
  (go-git's \<^verbatim>\<open>pktline.Scanner\<close>, which is not under src/), with the decoder of section 4.1.
  At the end of the body the scan ends without an error; the end-of-section marker is an
  empty line.
\<close>

datatype scan = ScanLine string string | ScanEOF | ScanError

definition Scan :: "string \<Rightarrow> scan" where
  "Scan body =
     (if body = [] then ScanEOF
      else case decodePktLine body of
        Inl e \<Rightarrow> ScanError
      | Inr (PktFlush, rest) \<Rightarrow> ScanLine [] rest
      | Inr (PktLine l, rest) \<Rightarrow> ScanLine l rest)"

lemma Scan_shorter: "Scan body = ScanLine line rest \<Longrightarrow> length rest < length body"
  by (auto simp: Scan_def decodePktLine_def split: if_splits option.splits)

function readRefUpdates ::
  "bool \<Rightarrow> string \<Rightarrow> RefUpdate list \<Rightarrow> string list
     \<Rightarrow> error + (RefUpdate list \<times> string list \<times> string)" where
  "readRefUpdates firstLine body refUpdates clientCapabilites =
     (case Scan body of
        ScanError \<Rightarrow> Inl ReadRequestLineError
      | ScanEOF \<Rightarrow> Inl ReadRequestLineEOF
      | ScanLine line rest \<Rightarrow>
          if line = [] then Inr (refUpdates, clientCapabilites, rest)
          else case refUpdateLine firstLine line of
                 Inl e \<Rightarrow> Inl e
               | Inr (u, c) \<Rightarrow>
                   readRefUpdates False rest (refUpdates @ [u])
                     (case c of None \<Rightarrow> clientCapabilites | Some c' \<Rightarrow> c'))"
  by pat_completeness auto

termination readRefUpdates
  by (relation "measure (\<lambda>(firstLine, body, refUpdates, caps). length body)")
     (auto dest: Scan_shorter)

declare readRefUpdates.simps [simp del]

text \<open>
  Library code that the handler calls, as parameters: \<^verbatim>\<open>gzip.NewReader\<close> with the reading
  of the whole body, \<^verbatim>\<open>packfile.UpdateObjectStorage\<close>, which writes objects only and may
  have written some when it fails, and the names for which the store's \<^verbatim>\<open>SetReference\<close>
  fails. A \<^verbatim>\<open>SetReference\<close> that fails leaves the store as it is; one that succeeds
  replaces the reference of that name or adds it.
\<close>

record library =
  gzip_NewReader :: "string \<Rightarrow> error + string"
  UpdateObjectStorage :: "(Hash \<times> Object) list \<Rightarrow> string \<Rightarrow> (Hash \<times> Object) list \<times> error option"
  SetReference_fails :: "string \<Rightarrow> bool"

fun setRef :: "Reference \<Rightarrow> Reference list \<Rightarrow> Reference list" where
  "setRef r [] = [r]"
| "setRef r (x # xs) = (if RefName x = RefName r then r # xs else x # setRef r xs)"

definition SetReference :: "library \<Rightarrow> Storer \<Rightarrow> Reference \<Rightarrow> Storer \<times> error option" where
  "SetReference lib st ref =
     (if SetReference_fails lib (RefName ref) then (st, Some (SetReferenceFailed (RefName ref)))
      else (st\<lparr>references := setRef ref (references st)\<rparr>, None))"

text \<open>The loop \<^verbatim>\<open>for _, refUpdate := range refUpdates\<close>: a failure is logged and the loop goes on.\<close>

fun applyRefUpdates :: "library \<Rightarrow> Storer \<Rightarrow> RefUpdate list \<Rightarrow> Storer" where
  "applyRefUpdates lib st [] = st"
| "applyRefUpdates lib st (refUpdate # refUpdates) =
     (case SetReference lib st (NewHashReference (Ref refUpdate) (To refUpdate)) of
        (st', Some e) \<Rightarrow> applyRefUpdates lib st' refUpdates
      | (st', None) \<Rightarrow> applyRefUpdates lib st' refUpdates)"

text \<open>
  The handler returns the error, or \<^verbatim>\<open>nil\<close> with the store and the response writer as it
  leaves them. Every error return comes before the first write to the store or the response.
\<close>

definition serveGitReceivePack ::
  "library \<Rightarrow> 'b bufio_Writer \<Rightarrow> 'b \<Rightarrow> Storer \<Rightarrow> string \<Rightarrow> string
     \<Rightarrow> error + (Storer \<times> 'b PacketLineWriter)" where
  "serveGitReceivePack lib io b st contentEncoding requestBody =
     (case (if contentEncoding = [] then Inr requestBody
            else if contentEncoding = ''gzip'' then
              (case gzip_NewReader lib requestBody of
                 Inl e \<Rightarrow> Inl GzipFailed
               | Inr gzr \<Rightarrow> Inr gzr)
            else Inl (UnknownContentEncoding contentEncoding)) of
        Inl e \<Rightarrow> Inl e
      | Inr body \<Rightarrow>
          (case readRefUpdates True body [] [] of
             Inl e \<Rightarrow> Inl e
           | Inr (refUpdates, clientCapabilites, rest) \<Rightarrow>
               (let gitWriter = NewPacketLineWriter b in
                case UpdateObjectStorage lib (objects st) rest of
                  (objs, Some e) \<Rightarrow>
                    Inr (st\<lparr>objects := objs\<rparr>,
                         fst (Flush io (WriteLine io gitWriter ''unpack error parsing packfile'')))
                | (objs, None) \<Rightarrow>
                    (case Flush io (WriteZeroPacketLine io (WriteLine io gitWriter ''unpack ok'')) of
                       (gitWriter', Some e) \<Rightarrow> Inr (st\<lparr>objects := objs\<rparr>, gitWriter')
                     | (gitWriter', None) \<Rightarrow>
                         Inr (applyRefUpdates lib (st\<lparr>objects := objs\<rparr>) refUpdates,
                              gitWriter')))))"

text \<open>
  A library for evaluation: no gzip, a pack decoder that accepts the packs that start with
  \<^verbatim>\<open>PACK\<close> and stores nothing, and a store that refuses the reference names that do not
  start with \<^verbatim>\<open>refs/\<close>.
\<close>

definition exampleLibrary :: library where
  "exampleLibrary =
     \<lparr>gzip_NewReader = (\<lambda>s. Inl GzipFailed),
      UpdateObjectStorage =
        (\<lambda>objs pack. if take 4 pack = ''PACK'' then (objs, None) else (objs, Some PackfileError)),
      SetReference_fails = (\<lambda>n. take 5 n \<noteq> ''refs/'')\<rparr>"

text \<open>
  A push to \<open>twoCommitStore\<close>: the first line moves \<^verbatim>\<open>refs/heads/main\<close> from \<open>hashOf 4\<close>
  to \<open>hashOf 3\<close> and carries the client's capabilities, the second line names a reference
  \<^verbatim>\<open>topic\<close> that the store refuses; then the end-of-section marker and the pack.
\<close>

definition pushLines :: string where
  "pushLines =
     ''00740404040404040404040404040404040404040404 0303030303030303030303030303030303030303 refs/heads/main''
     @ [CHR 0x00] @ '' report-status''
     @ ''005b0000000000000000000000000000000000000000 0303030303030303030303030303030303030303 topic''
     @ ''0000''"



subsection \<open>A pack that does not decode\<close>



subsection \<open>Applying the reference updates\<close>











subsection \<open>Which request lines are accepted\<close>

lemma split_at_first:
  "sep \<in> set s \<Longrightarrow>
     s = takeWhile (\<lambda>c. c \<noteq> sep) s @ sep # tl (dropWhile (\<lambda>c. c \<noteq> sep) s)"
proof -
  assume "sep \<in> set s"
  then have "dropWhile (\<lambda>c. c \<noteq> sep) s \<noteq> []" by (simp add: dropWhile_eq_Nil_conv)
  moreover from this have "hd (dropWhile (\<lambda>c. c \<noteq> sep) s) = sep"
    using hd_dropWhile[of "\<lambda>c. c \<noteq> sep" s] by simp
  ultimately have "dropWhile (\<lambda>c. c \<noteq> sep) s = sep # tl (dropWhile (\<lambda>c. c \<noteq> sep) s)"
    by (metis list.collapse)
  then show ?thesis by (metis takeWhile_dropWhile_id)
qed

lemma takeWhile_before: "sep \<notin> set a \<Longrightarrow> takeWhile (\<lambda>c. c \<noteq> sep) (a @ sep # r) = a"
  by (induction a) auto

lemma dropWhile_before: "sep \<notin> set a \<Longrightarrow> dropWhile (\<lambda>c. c \<noteq> sep) (a @ sep # r) = sep # r"
  by (induction a) auto

lemma strings_SplitN_3:
  "strings_SplitN s sep 3 =
     (if sep \<in> set s then
        (if sep \<in> set (tl (dropWhile (\<lambda>c. c \<noteq> sep) s)) then
           [takeWhile (\<lambda>c. c \<noteq> sep) s,
            takeWhile (\<lambda>c. c \<noteq> sep) (tl (dropWhile (\<lambda>c. c \<noteq> sep) s)),
            tl (dropWhile (\<lambda>c. c \<noteq> sep) (tl (dropWhile (\<lambda>c. c \<noteq> sep) s)))]
         else [takeWhile (\<lambda>c. c \<noteq> sep) s, tl (dropWhile (\<lambda>c. c \<noteq> sep) s)])
      else [s])"
  by (simp add: numeral_3_eq_3)

lemma strings_SplitN_3_fields:
  "sep \<notin> set a \<Longrightarrow> sep \<notin> set b \<Longrightarrow> strings_SplitN (a @ sep # b @ sep # r) sep 3 = [a, b, r]"
  by (simp add: strings_SplitN_3 takeWhile_before dropWhile_before)

lemma strings_SplitN_3_length:
  "length (strings_SplitN s sep 3) = 3 \<longleftrightarrow>
     (\<exists>a b r. s = a @ sep # b @ sep # r \<and> sep \<notin> set a \<and> sep \<notin> set b)"
proof
  assume l: "length (strings_SplitN s sep 3) = 3"
  let ?s' = "tl (dropWhile (\<lambda>c. c \<noteq> sep) s)"
  from l have m1: "sep \<in> set s" and m2: "sep \<in> set ?s'"
    by (auto simp: strings_SplitN_3 split: if_splits)
  have n1: "sep \<notin> set (takeWhile (\<lambda>c. c \<noteq> sep) s)"
    and n2: "sep \<notin> set (takeWhile (\<lambda>c. c \<noteq> sep) ?s')"
    by (auto dest: set_takeWhileD)
  from split_at_first[OF m1] split_at_first[OF m2]
  have "s = takeWhile (\<lambda>c. c \<noteq> sep) s @ sep #
              takeWhile (\<lambda>c. c \<noteq> sep) ?s' @ sep # tl (dropWhile (\<lambda>c. c \<noteq> sep) ?s')"
    by simp
  with n1 n2 show "\<exists>a b r. s = a @ sep # b @ sep # r \<and> sep \<notin> set a \<and> sep \<notin> set b"
    by blast
next
  assume "\<exists>a b r. s = a @ sep # b @ sep # r \<and> sep \<notin> set a \<and> sep \<notin> set b"
  then show "length (strings_SplitN s sep 3) = 3"
    by (auto simp: strings_SplitN_3_fields)
qed

lemma length_split_from: "length (split_from sep cur cs) = Suc (count_list cs sep)"
  by (induction cs arbitrary: cur) simp_all

lemma hd_split_from: "hd (split_from sep cur cs) = rev cur @ takeWhile (\<lambda>c. c \<noteq> sep) cs"
  by (induction cs arbitrary: cur) simp_all

lemma strings_Split_one: "length (strings_Split s sep) = 1 \<longleftrightarrow> sep \<notin> set s"
  by (simp add: strings_Split_def length_split_from count_list_0_iff)

lemma strings_Split_more: "length (strings_Split s sep) > 1 \<longleftrightarrow> sep \<in> set s"
  using count_list_0_iff[of s sep] by (auto simp: strings_Split_def length_split_from)

lemma hd_strings_Split: "hd (strings_Split s sep) = takeWhile (\<lambda>c. c \<noteq> sep) s"
  by (simp add: strings_Split_def hd_split_from)

lemma parseHash_Inr: "parseHash s = Inr h \<longleftrightarrow> hex_DecodeString s = Inr h \<and> length h = 20"
  by (auto simp: parseHash_def split: sum.splits)

lemma refUpdateLine_fields:
  assumes "CHR '' '' \<notin> set a" "CHR '' '' \<notin> set b"
  shows "refUpdateLine firstLine (a @ CHR '' '' # b @ CHR '' '' # r) =
     (if \<not> firstLine \<and> CHR 0x00 \<in> set r
      then Inl (UnexpectedLineNulls (a @ CHR '' '' # b @ CHR '' '' # r))
      else case parseHash a of
             Inl e \<Rightarrow> Inl (UnexpectedLineHash1 (a @ CHR '' '' # b @ CHR '' '' # r))
           | Inr from \<Rightarrow>
               (case parseHash b of
                  Inl e \<Rightarrow> Inl (UnexpectedLineHash2 (a @ CHR '' '' # b @ CHR '' '' # r))
                | Inr to \<Rightarrow>
                    Inr (\<lparr>From = from, To = to, Ref = takeWhile (\<lambda>c. c \<noteq> CHR 0x00) r\<rparr>,
                         if firstLine \<and> CHR 0x00 \<in> set r
                         then Some (tl (strings_Split r (CHR 0x00))) else None)))"
proof -
  have t: "strings_SplitN (a @ CHR '' '' # b @ CHR '' '' # r) (CHR '' '') 3 = [a, b, r]"
    using assms by (rule strings_SplitN_3_fields)
  have one: "(length (strings_Split r (CHR 0x00)) \<noteq> 1) = (CHR 0x00 \<in> set r)"
    using strings_Split_one[of r "CHR 0x00"] by simp
  have more: "(1 < length (strings_Split r (CHR 0x00))) = (CHR 0x00 \<in> set r)"
    using strings_Split_more[of r "CHR 0x00"] by simp
  show ?thesis
    unfolding refUpdateLine_def t Let_def
    by (simp add: one more hd_strings_Split numeral_2_eq_2 del: One_nat_def
             split: sum.splits)
qed

lemma refUpdateLine_accepts:
  "(\<exists>u c. refUpdateLine firstLine line = Inr (u, c)) \<longleftrightarrow>
     (\<exists>a b r. line = a @ CHR '' '' # b @ CHR '' '' # r \<and>
        CHR '' '' \<notin> set a \<and> CHR '' '' \<notin> set b \<and>
        (\<exists>h. hex_DecodeString a = Inr h \<and> length h = 20) \<and>
        (\<exists>h. hex_DecodeString b = Inr h \<and> length h = 20) \<and>
        (firstLine \<or> CHR 0x00 \<notin> set r))"
proof
  assume "\<exists>u c. refUpdateLine firstLine line = Inr (u, c)"
  then obtain u c where acc: "refUpdateLine firstLine line = Inr (u, c)" by blast
  then have "length (strings_SplitN line (CHR '' '') 3) = 3"
    by (auto simp: refUpdateLine_def Let_def split: if_splits)
  then obtain a b r where l: "line = a @ CHR '' '' # b @ CHR '' '' # r"
    and n: "CHR '' '' \<notin> set a" "CHR '' '' \<notin> set b"
    unfolding strings_SplitN_3_length by blast
  from acc have "(firstLine \<or> CHR 0x00 \<notin> set r) \<and> (\<exists>h. parseHash a = Inr h) \<and>
                 (\<exists>h. parseHash b = Inr h)"
    unfolding l refUpdateLine_fields[OF n]
    by (auto split: if_splits sum.splits)
  with l n show "\<exists>a b r. line = a @ CHR '' '' # b @ CHR '' '' # r \<and>
        CHR '' '' \<notin> set a \<and> CHR '' '' \<notin> set b \<and>
        (\<exists>h. hex_DecodeString a = Inr h \<and> length h = 20) \<and>
        (\<exists>h. hex_DecodeString b = Inr h \<and> length h = 20) \<and>
        (firstLine \<or> CHR 0x00 \<notin> set r)"
    unfolding parseHash_Inr by blast
next
  assume "\<exists>a b r. line = a @ CHR '' '' # b @ CHR '' '' # r \<and>
        CHR '' '' \<notin> set a \<and> CHR '' '' \<notin> set b \<and>
        (\<exists>h. hex_DecodeString a = Inr h \<and> length h = 20) \<and>
        (\<exists>h. hex_DecodeString b = Inr h \<and> length h = 20) \<and>
        (firstLine \<or> CHR 0x00 \<notin> set r)"
  then obtain a b r ha hb where l: "line = a @ CHR '' '' # b @ CHR '' '' # r"
    and n: "CHR '' '' \<notin> set a" "CHR '' '' \<notin> set b"
    and pa: "parseHash a = Inr ha" and pb: "parseHash b = Inr hb"
    and z: "firstLine \<or> CHR 0x00 \<notin> set r"
    unfolding parseHash_Inr[symmetric] by blast
  show "\<exists>u c. refUpdateLine firstLine line = Inr (u, c)"
    unfolding l refUpdateLine_fields[OF n] using pa pb z by auto
qed

lemma readRefUpdates_rejects:
  "Scan body = ScanLine line rest \<Longrightarrow> line \<noteq> [] \<Longrightarrow> refUpdateLine firstLine line = Inl e \<Longrightarrow>
     readRefUpdates firstLine body us caps = Inl e"
  by (subst readRefUpdates.simps) simp

lemma readRefUpdates_accepts:
  "Scan body = ScanLine line rest \<Longrightarrow> line \<noteq> [] \<Longrightarrow> refUpdateLine firstLine line = Inr (u, c) \<Longrightarrow>
     readRefUpdates firstLine body us caps =
       readRefUpdates False rest (us @ [u]) (case c of None \<Rightarrow> caps | Some c' \<Rightarrow> c')"
  by (subst readRefUpdates.simps) simp

lemma serveGitReceivePack_rejects:
  assumes enc: "(contentEncoding = [] \<and> body = requestBody) \<or>
      (contentEncoding = ''gzip'' \<and> gzip_NewReader lib requestBody = Inr body)"
    and r: "readRefUpdates True body [] [] = Inl e"
  shows "serveGitReceivePack lib io b st contentEncoding requestBody = Inl e"
proof -
  from enc have b: "(if contentEncoding = [] then Inr requestBody
            else if contentEncoding = ''gzip'' then
              (case gzip_NewReader lib requestBody of
                 Inl e \<Rightarrow> Inl GzipFailed
               | Inr gzr \<Rightarrow> Inr gzr)
            else Inl (UnknownContentEncoding contentEncoding)) = (Inr body :: error + string)"
    by auto
  show ?thesis unfolding serveGitReceivePack_def b by (simp add: r)
qed

text \<open>
  Claim C9, as stated, fails: an accepted line need not split into exactly three
  space-separated fields. The first line of \<open>pushLines\<close>, whose capability segment starts
  with a space as a git client sends it, is accepted and has four fields between its spaces;
  and a later line whose third field is \<^verbatim>\<open>refs/heads/a b\<close> is accepted with that name.
\<close>

theorem request_line_accepted_counterexample:
  "refUpdateLine True
     (''0404040404040404040404040404040404040404 0303030303030303030303030303030303030303 refs/heads/main''
      @ [CHR 0x00] @ '' report-status'')
     = Inr (\<lparr>From = hashOf 4, To = hashOf 3, Ref = ''refs/heads/main''\<rparr>,
            Some ['' report-status''])
   \<and> length (strings_Split
        (''0404040404040404040404040404040404040404 0303030303030303030303030303030303030303 refs/heads/main''
         @ [CHR 0x00] @ '' report-status'') (CHR '' '')) = 4
   \<and> refUpdateLine False
        ''0404040404040404040404040404040404040404 0303030303030303030303030303030303030303 refs/heads/a b''
       = Inr (\<lparr>From = hashOf 4, To = hashOf 3, Ref = ''refs/heads/a b''\<rparr>, None)
   \<and> length (strings_Split
        ''0404040404040404040404040404040404040404 0303030303030303030303030303030303030303 refs/heads/a b''
        (CHR '' '')) = 4"
proof -
  have a: "refUpdateLine True
     (''0404040404040404040404040404040404040404 0303030303030303030303030303030303030303 refs/heads/main''
      @ [CHR 0x00] @ '' report-status'')
     = Inr (\<lparr>From = hashOf 4, To = hashOf 3, Ref = ''refs/heads/main''\<rparr>,
            Some ['' report-status''])"
    by code_simp
  have b: "length (strings_Split
        (''0404040404040404040404040404040404040404 0303030303030303030303030303030303030303 refs/heads/main''
         @ [CHR 0x00] @ '' report-status'') (CHR '' '')) = 4"
    by code_simp
  have c: "refUpdateLine False
        ''0404040404040404040404040404040404040404 0303030303030303030303030303030303030303 refs/heads/a b''
       = Inr (\<lparr>From = hashOf 4, To = hashOf 3, Ref = ''refs/heads/a b''\<rparr>, None)"
    by code_simp
  have d: "length (strings_Split
        ''0404040404040404040404040404040404040404 0303030303030303030303030303030303030303 refs/heads/a b''
        (CHR '' '')) = 4"
    by code_simp
  show ?thesis by (intro conjI) (fact a, fact b, fact c, fact d)
qed

text \<open>
  Claim C9, amended. A request line is accepted if and only if it has at least two spaces and,
  cut at its first two spaces into three fields (the third may contain further spaces), the
  first two fields each decode from hex to exactly 20 bytes and the third field contains a
  NUL only when the line is the first line of the request. \<^verbatim>\<open>parseHash\<close> succeeds exactly
  when the hex decoding does and gives 20 bytes. A line that is not accepted ends the reading
  of the request lines with its error, an accepted line goes on with the next line as a line
  that is not the first, and when the reading fails the handler returns that error: the pack
  decoder has not been called, and neither the store nor the response has been written to.
\<close>

theorem request_line_accepted:
  "((\<exists>u c. refUpdateLine firstLine line = Inr (u, c)) \<longleftrightarrow>
      (\<exists>a b r. line = a @ CHR '' '' # b @ CHR '' '' # r \<and>
         CHR '' '' \<notin> set a \<and> CHR '' '' \<notin> set b \<and>
         (\<exists>h. hex_DecodeString a = Inr h \<and> length h = 20) \<and>
         (\<exists>h. hex_DecodeString b = Inr h \<and> length h = 20) \<and>
         (firstLine \<or> CHR 0x00 \<notin> set r)))
   \<and> (parseHash s = Inr h \<longleftrightarrow> hex_DecodeString s = Inr h \<and> length h = 20)
   \<and> (Scan body = ScanLine line rest \<longrightarrow> line \<noteq> [] \<longrightarrow>
        refUpdateLine firstLine line = Inl e \<longrightarrow>
        readRefUpdates firstLine body us caps = Inl e)
   \<and> (Scan body = ScanLine line rest \<longrightarrow> line \<noteq> [] \<longrightarrow>
        refUpdateLine firstLine line = Inr (u, c) \<longrightarrow>
        readRefUpdates firstLine body us caps =
          readRefUpdates False rest (us @ [u]) (case c of None \<Rightarrow> caps | Some c' \<Rightarrow> c'))
   \<and> (((contentEncoding = [] \<and> body = requestBody) \<or>
         (contentEncoding = ''gzip'' \<and> gzip_NewReader lib requestBody = Inr body)) \<longrightarrow>
        readRefUpdates True body [] [] = Inl e \<longrightarrow>
        serveGitReceivePack lib io b st contentEncoding requestBody = Inl e)"
proof (intro conjI impI)
  show "(\<exists>u c. refUpdateLine firstLine line = Inr (u, c)) \<longleftrightarrow>
      (\<exists>a b r. line = a @ CHR '' '' # b @ CHR '' '' # r \<and>
         CHR '' '' \<notin> set a \<and> CHR '' '' \<notin> set b \<and>
         (\<exists>h. hex_DecodeString a = Inr h \<and> length h = 20) \<and>
         (\<exists>h. hex_DecodeString b = Inr h \<and> length h = 20) \<and>
         (firstLine \<or> CHR 0x00 \<notin> set r))"
    by (rule refUpdateLine_accepts)
  show "parseHash s = Inr h \<longleftrightarrow> hex_DecodeString s = Inr h \<and> length h = 20"
    by (rule parseHash_Inr)
next
  assume "Scan body = ScanLine line rest" "line \<noteq> []" "refUpdateLine firstLine line = Inl e"
  then show "readRefUpdates firstLine body us caps = Inl e" by (rule readRefUpdates_rejects)
next
  assume "Scan body = ScanLine line rest" "line \<noteq> []" "refUpdateLine firstLine line = Inr (u, c)"
  then show "readRefUpdates firstLine body us caps =
          readRefUpdates False rest (us @ [u]) (case c of None \<Rightarrow> caps | Some c' \<Rightarrow> c')"
    by (rule readRefUpdates_accepts)
next
  assume "(contentEncoding = [] \<and> body = requestBody) \<or>
         (contentEncoding = ''gzip'' \<and> gzip_NewReader lib requestBody = Inr body)"
    and "readRefUpdates True body [] [] = Inl e"
  then show "serveGitReceivePack lib io b st contentEncoding requestBody = Inl e"
    by (rule serveGitReceivePack_rejects)
qed

text \<open>
  A request whose only line \<^verbatim>\<open>topic 00\<close> has one space: the line is rejected, the reading of
  the request fails, and the handler returns the error. And the first line of \<open>pushLines\<close>
  is accepted, after which the reading goes on with the second line.
\<close>

theorem request_line_accepted_witness:
  "Scan ''000ctopic 00'' = ScanLine ''topic 00'' []
   \<and> ''topic 00'' \<noteq> []
   \<and> refUpdateLine True ''topic 00'' = Inl (UnexpectedLineSpaces ''topic 00'')
   \<and> readRefUpdates True ''000ctopic 00'' [] [] = Inl (UnexpectedLineSpaces ''topic 00'')
   \<and> serveGitReceivePack exampleLibrary memWriter [] twoCommitStore [] ''000ctopic 00''
       = Inl (UnexpectedLineSpaces ''topic 00'')
   \<and> \<not> (\<exists>a b r. ''topic 00'' = a @ CHR '' '' # b @ CHR '' '' # r \<and>
         CHR '' '' \<notin> set a \<and> CHR '' '' \<notin> set b \<and>
         (\<exists>h. hex_DecodeString a = Inr h \<and> length h = 20) \<and>
         (\<exists>h. hex_DecodeString b = Inr h \<and> length h = 20) \<and>
         (True \<or> CHR 0x00 \<notin> set r))
   \<and> Scan (pushLines @ ''PACK'') =
       ScanLine
         (''0404040404040404040404040404040404040404 0303030303030303030303030303030303030303 refs/heads/main''
          @ [CHR 0x00] @ '' report-status'')
         (''005b0000000000000000000000000000000000000000 0303030303030303030303030303030303030303 topic''
          @ ''0000'' @ ''PACK'')
   \<and> refUpdateLine True
        (''0404040404040404040404040404040404040404 0303030303030303030303030303030303030303 refs/heads/main''
         @ [CHR 0x00] @ '' report-status'')
       = Inr (\<lparr>From = hashOf 4, To = hashOf 3, Ref = ''refs/heads/main''\<rparr>,
              Some ['' report-status''])
   \<and> readRefUpdates True (pushLines @ ''PACK'') [] [] =
       readRefUpdates False
         (''005b0000000000000000000000000000000000000000 0303030303030303030303030303030303030303 topic''
          @ ''0000'' @ ''PACK'')
         [\<lparr>From = hashOf 4, To = hashOf 3, Ref = ''refs/heads/main''\<rparr>]
         ['' report-status'']"
proof -
  let ?line1 = "''0404040404040404040404040404040404040404 0303030303030303030303030303030303030303 refs/heads/main''
          @ [CHR 0x00] @ '' report-status''"
  let ?rest = "''005b0000000000000000000000000000000000000000 0303030303030303030303030303030303030303 topic''
          @ ''0000'' @ ''PACK''"
  let ?u1 = "\<lparr>From = hashOf 4, To = hashOf 3, Ref = ''refs/heads/main''\<rparr>"
  have a: "Scan ''000ctopic 00'' = ScanLine ''topic 00'' []" by code_simp
  have b: "''topic 00'' \<noteq> []" by simp
  have c: "refUpdateLine True ''topic 00'' = Inl (UnexpectedLineSpaces ''topic 00'')"
    by code_simp
  have enc: "(([] :: string) = [] \<and> ''000ctopic 00'' = ''000ctopic 00'') \<or>
    (([] :: string) = ''gzip'' \<and>
     gzip_NewReader exampleLibrary ''000ctopic 00'' = Inr ''000ctopic 00'')"
    by simp
  note t = request_line_accepted[of True "''topic 00''" _ _ "''000ctopic 00''" "[]"
             "UnexpectedLineSpaces ''topic 00''" "[]" "[]" _ _ "[]" "''000ctopic 00''"
             exampleLibrary memWriter "[]" twoCommitStore]
  note t3 = t[THEN conjunct2, THEN conjunct2, THEN conjunct1, THEN mp, OF a, THEN mp, OF b,
              THEN mp, OF c]
  note t5 = t[THEN conjunct2, THEN conjunct2, THEN conjunct2, THEN conjunct2,
              THEN mp, OF enc, THEN mp, OF t3]
  from c have "\<not> (\<exists>u c. refUpdateLine True ''topic 00'' = Inr (u, c))" by simp
  with t[THEN conjunct1]
  have n: "\<not> (\<exists>a b r. ''topic 00'' = a @ CHR '' '' # b @ CHR '' '' # r \<and>
         CHR '' '' \<notin> set a \<and> CHR '' '' \<notin> set b \<and>
         (\<exists>h. hex_DecodeString a = Inr h \<and> length h = 20) \<and>
         (\<exists>h. hex_DecodeString b = Inr h \<and> length h = 20) \<and>
         (True \<or> CHR 0x00 \<notin> set r))"
    by blast
  have a2: "Scan (pushLines @ ''PACK'') = ScanLine ?line1 ?rest" by code_simp
  have b2: "?line1 \<noteq> []" by simp
  have c2: "refUpdateLine True ?line1 = Inr (?u1, Some ['' report-status''])" by code_simp
  note s = request_line_accepted[of True ?line1 _ _ "pushLines @ ''PACK''" ?rest
             _ "[]" "[]" ?u1 "Some ['' report-status'']"]
  from s[THEN conjunct2, THEN conjunct2, THEN conjunct2, THEN conjunct1,
         THEN mp, OF a2, THEN mp, OF b2, THEN mp, OF c2]
  have t4: "readRefUpdates True (pushLines @ ''PACK'') [] [] =
       readRefUpdates False ?rest [?u1] ['' report-status'']"
    by simp
  show ?thesis
    by (intro conjI) (fact a, fact b, fact c, fact t3, fact t5, fact n, fact a2, fact c2, fact t4)
qed

end
